theory Spec2Isabelle
  imports Complex_Main "HOL-Library.AList"
begin

section \<open>Python numbers\<close>

text \<open>
  The timings of \<^verbatim>\<open>ssh_stress.py\<close> are Python floats (differences of
  \<^verbatim>\<open>time.perf_counter()\<close> readings), that is IEEE 754 binary64 values, and the statistics mix
  them with Python ints (\<^verbatim>\<open>total_auth_time = 0\<close>, \<^verbatim>\<open>max_auth_time = 0\<close>) and with
  \<^verbatim>\<open>float('inf')\<close>. A finite float is modelled by the rational number it denotes; every
  arithmetic result is rounded to the nearest binary64 value, ties to even. The two zeros
  of binary64 are identified (they compare equal in Python).
\<close>

datatype pyfloat = Finite rat | PInf | NInf | NaN

datatype pynum = PyInt int | PyFloat pyfloat

text \<open>The exceptions of the statistics; \<open>LibraryError\<close> is any exception that comes out of
  the plotting library, with its text.\<close>

datatype py_error = ZeroDivisionError | TypeError | OverflowError | LibraryError string

definition pow2 :: "int \<Rightarrow> rat" where
  "pow2 e = (if 0 \<le> e then 2 ^ nat e else 1 / 2 ^ nat (- e))"

function bitlen :: "int \<Rightarrow> int" where
  "bitlen n = (if n \<le> 0 then 0 else 1 + bitlen (n div 2))"
  by pat_completeness auto
termination
  by (relation "measure nat") auto

declare bitlen.simps [simp del]

text \<open>\<open>ilog2 x\<close> is the binary exponent of a positive rational: \<open>2^e \<le> x < 2^(e+1)\<close>.\<close>

definition ilog2 :: "rat \<Rightarrow> int" where
  "ilog2 x =
     (if 1 \<le> x then bitlen \<lfloor>x\<rfloor> - 1
      else let k = bitlen \<lfloor>1 / x\<rfloor> in if pow2 (1 - k) \<le> x then 1 - k else - k)"

definition round_half_even :: "rat \<Rightarrow> int" where
  "round_half_even x =
     (let f = \<lfloor>x\<rfloor>; d = x - of_int f
      in if d < 1 / 2 then f
         else if 1 / 2 < d then f + 1
         else if even f then f else f + 1)"

text \<open>
  Rounding of an exact result to binary64: 53 significant bits, the exponent of the
  quantum bounded below by that of the subnormals, overflow to an infinity.
\<close>

definition fl :: "rat \<Rightarrow> pyfloat" where
  "fl x =
     (if x = 0 then Finite 0
      else
        let a = \<bar>x\<bar>;
            q = pow2 (max (ilog2 a) (- 1022) - 52);
            r = of_int (round_half_even (a / q)) * q
        in if pow2 1024 \<le> r then (if x < 0 then NInf else PInf)
           else Finite (if x < 0 then - r else r))"

fun fadd :: "pyfloat \<Rightarrow> pyfloat \<Rightarrow> pyfloat" where
  "fadd (Finite a) (Finite b) = fl (a + b)"
| "fadd NaN _ = NaN"
| "fadd _ NaN = NaN"
| "fadd PInf NInf = NaN"
| "fadd NInf PInf = NaN"
| "fadd PInf _ = PInf"
| "fadd NInf _ = NInf"
| "fadd _ PInf = PInf"
| "fadd _ NInf = NInf"

text \<open>Division of a float by a finite, non-zero float.\<close>

fun fdiv :: "pyfloat \<Rightarrow> rat \<Rightarrow> pyfloat" where
  "fdiv (Finite a) b = fl (a / b)"
| "fdiv PInf b = (if 0 < b then PInf else NInf)"
| "fdiv NInf b = (if 0 < b then NInf else PInf)"
| "fdiv NaN b = NaN"

text \<open>\<^verbatim>\<open>float(i)\<close>, as the mixed operations \<^verbatim>\<open>int + float\<close> and \<^verbatim>\<open>float / int\<close> apply it
  to their int operand: an int too large for a float raises \<^verbatim>\<open>OverflowError\<close>.\<close>

definition float_of_int :: "int \<Rightarrow> py_error + pyfloat" where
  "float_of_int i = (case fl (of_int i) of Finite q \<Rightarrow> Inr (Finite q) | _ \<Rightarrow> Inl OverflowError)"

text \<open>\<^verbatim>\<open>total += t\<close> for a float \<open>t\<close>.\<close>

fun py_add :: "pynum \<Rightarrow> pyfloat \<Rightarrow> py_error + pynum" where
  "py_add (PyInt i) t =
     (case float_of_int i of Inl e \<Rightarrow> Inl e | Inr f \<Rightarrow> Inr (PyFloat (fadd f t)))"
| "py_add (PyFloat f) t = Inr (PyFloat (fadd f t))"

text \<open>\<^verbatim>\<open>total / n\<close> for an int \<open>n\<close>: true division, which raises on a zero divisor whatever
  the dividend is.\<close>

fun py_truediv :: "pynum \<Rightarrow> int \<Rightarrow> py_error + pynum" where
  "py_truediv (PyInt i) n =
     (if n = 0 then Inl ZeroDivisionError
      else case fl (of_int i / of_int n) of
             Finite q \<Rightarrow> Inr (PyFloat (Finite q))
           | _ \<Rightarrow> Inl OverflowError)"
| "py_truediv (PyFloat f) n =
     (case float_of_int n of
        Inl e \<Rightarrow> Inl e
      | Inr d \<Rightarrow> (case d of
                   Finite b \<Rightarrow> if b = 0 then Inl ZeroDivisionError else Inr (PyFloat (fdiv f b))
                 | _ \<Rightarrow> Inl OverflowError))"

text \<open>Python's \<open><\<close> on numbers: exact between int and float, false whenever a NaN is
  involved.\<close>

fun float_lt :: "pyfloat \<Rightarrow> pyfloat \<Rightarrow> bool" where
  "float_lt NaN _ = False"
| "float_lt _ NaN = False"
| "float_lt (Finite a) (Finite b) = (a < b)"
| "float_lt (Finite a) PInf = True"
| "float_lt NInf (Finite b) = True"
| "float_lt NInf PInf = True"
| "float_lt _ _ = False"

fun py_lt :: "pynum \<Rightarrow> pynum \<Rightarrow> bool" where
  "py_lt (PyInt i) (PyInt j) = (i < j)"
| "py_lt (PyInt i) (PyFloat f) = float_lt (Finite (of_int i)) f"
| "py_lt (PyFloat f) (PyInt j) = float_lt f (Finite (of_int j))"
| "py_lt (PyFloat f) (PyFloat g) = float_lt f g"

text \<open>\<^verbatim>\<open>max(a, b)\<close> and \<^verbatim>\<open>min(a, b)\<close> keep their first argument unless the second is
  strictly greater (smaller).\<close>

definition py_max :: "pynum \<Rightarrow> pynum \<Rightarrow> pynum" where
  "py_max a b = (if py_lt a b then b else a)"

definition py_min :: "pynum \<Rightarrow> pynum \<Rightarrow> pynum" where
  "py_min a b = (if py_lt b a then b else a)"

text \<open>Python's \<open>==\<close> on numbers: by value, an int equals the float of the same value, a NaN
  equals nothing.\<close>

fun py_eq :: "pynum \<Rightarrow> pynum \<Rightarrow> bool" where
  "py_eq (PyInt i) (PyInt j) = (i = j)"
| "py_eq (PyInt i) (PyFloat f) = (f = Finite (of_int i))"
| "py_eq (PyFloat f) (PyInt j) = (f = Finite (of_int j))"
| "py_eq (PyFloat f) (PyFloat g) = (f = g \<and> f \<noteq> NaN)"

section \<open>Per-connection outcomes and round statistics\<close>

text \<open>What \<^verbatim>\<open>_sftp\<close> and \<^verbatim>\<open>_ssh\<close> put under the key \<^verbatim>\<open>results\<close>: the value of the remote
  operation, or \<^verbatim>\<open>str(e)\<close>.\<close>

datatype payload = Listing "string list" | Completed string | ErrorText string

text \<open>The dict \<^verbatim>\<open>conn_stat\<close>. The key \<^verbatim>\<open>id\<close> is the field \<open>conn_id\<close>.\<close>

record conn_stat =
  conn_id :: int
  success :: bool
  auth_time :: "pyfloat option"
  conn_time :: "pyfloat option"
  results :: payload

text \<open>A Python dict keeps its keys in insertion order: it is an association list, and
  \<^verbatim>\<open>d[k] = v\<close> is \<^const>\<open>AList.update\<close> (an existing key keeps its place, a new one goes last).\<close>

type_synonym round_dict = "(int \<times> conn_stat) list"

type_synonym perf_dict = "(string \<times> round_dict) list"

text \<open>
  The dict made for a round and the dict \<^verbatim>\<open>stats\<close>. The value under \<^verbatim>\<open>conn_data\<close> is the
  dict of the round and the value under \<^verbatim>\<open>round_data\<close> the dict of all rounds; the records
  leave their representation open, so that they serve for dict values (\<open>round_stats\<close>,
  \<open>stats\<close>) and, in the store of objects below, for dicts that hold references.
\<close>

record 'd round_stats_of =
  avg_auth_time :: pynum
  avg_conn_time :: pynum
  max_auth_time :: pynum
  max_conn_time :: pynum
  min_auth_time :: pynum
  min_conn_time :: pynum
  failed_conns :: int
  conn_data :: 'd

type_synonym round_stats = "round_dict round_stats_of"

record 'r stats_of =
  stress_type :: string
  rounds :: int
  conns_per_round :: int
  total_conns :: int
  conns_per_sec :: pynum
  conn_wait :: int
  global_wait :: int
  round_data :: 'r

type_synonym stats = "(string \<times> round_stats) list stats_of"

text \<open>The local variables of one pass of the outer loop of \<^verbatim>\<open>_calculate_stats\<close>.\<close>

record round_vars =
  v_total_auth_time :: pynum
  v_total_conn_time :: pynum
  v_max_auth_time :: pynum
  v_max_conn_time :: pynum
  v_min_auth_time :: pynum
  v_min_conn_time :: pynum
  v_total_failed :: int

definition round_vars_init :: round_vars where
  "round_vars_init =
     \<lparr> v_total_auth_time = PyInt 0, v_total_conn_time = PyInt 0,
       v_max_auth_time = PyInt 0, v_max_conn_time = PyInt 0,
       v_min_auth_time = PyFloat PInf, v_min_conn_time = PyFloat PInf,
       v_total_failed = 0 \<rparr>"

text \<open>The body of \<^verbatim>\<open>for data in round_data.values()\<close>. A successful record without a
  time makes \<^verbatim>\<open>total_auth_time += auth_time\<close> raise \<^verbatim>\<open>TypeError\<close>.\<close>

definition tally :: "conn_stat \<Rightarrow> round_vars \<Rightarrow> py_error + round_vars" where
  "tally d v =
     (if success d then
        (case auth_time d of
           None \<Rightarrow> Inl TypeError
         | Some a \<Rightarrow>
            (case py_add (v_total_auth_time v) a of
               Inl e \<Rightarrow> Inl e
             | Inr ta \<Rightarrow>
                (case conn_time d of
                   None \<Rightarrow> Inl TypeError
                 | Some c \<Rightarrow>
                    (case py_add (v_total_conn_time v) c of
                       Inl e \<Rightarrow> Inl e
                     | Inr tc \<Rightarrow>
                        Inr (v\<lparr> v_total_auth_time := ta,
                                v_max_auth_time := py_max (v_max_auth_time v) (PyFloat a),
                                v_min_auth_time := py_min (v_min_auth_time v) (PyFloat a),
                                v_total_conn_time := tc,
                                v_max_conn_time := py_max (v_max_conn_time v) (PyFloat c),
                                v_min_conn_time := py_min (v_min_conn_time v) (PyFloat c) \<rparr>)))))
      else Inr (v\<lparr> v_total_failed := v_total_failed v + 1 \<rparr>))"

fun tally_all :: "conn_stat list \<Rightarrow> round_vars \<Rightarrow> py_error + round_vars" where
  "tally_all [] v = Inr v"
| "tally_all (d # ds) v = (case tally d v of Inl e \<Rightarrow> Inl e | Inr v' \<Rightarrow> tally_all ds v')"

text \<open>The \<^verbatim>\<open>try\<close> block: both averages, or both 0 when a division raises
  \<^verbatim>\<open>ZeroDivisionError\<close>; any other error is not caught.\<close>

definition averages :: "pynum \<Rightarrow> pynum \<Rightarrow> int \<Rightarrow> py_error + pynum \<times> pynum" where
  "averages ta tc n =
     (case py_truediv ta n of
        Inl e \<Rightarrow> if e = ZeroDivisionError then Inr (PyInt 0, PyInt 0) else Inl e
      | Inr aa \<Rightarrow>
         (case py_truediv tc n of
            Inl e \<Rightarrow> if e = ZeroDivisionError then Inr (PyInt 0, PyInt 0) else Inl e
          | Inr ac \<Rightarrow> Inr (aa, ac)))"

text \<open>One pass of the outer loop: the entry stored under \<^verbatim>\<open>rounds_dict[round_name]\<close>.\<close>

definition round_summary :: "round_dict \<Rightarrow> py_error + round_stats" where
  "round_summary rd =
     (case tally_all (map snd rd) round_vars_init of
        Inl e \<Rightarrow> Inl e
      | Inr v \<Rightarrow>
         (case averages (v_total_auth_time v) (v_total_conn_time v)
                 (int (length rd) - v_total_failed v) of
            Inl e \<Rightarrow> Inl e
          | Inr (aa, ac) \<Rightarrow>
             Inr \<lparr> avg_auth_time = aa, avg_conn_time = ac,
                   max_auth_time = v_max_auth_time v, max_conn_time = v_max_conn_time v,
                   min_auth_time = v_min_auth_time v, min_conn_time = v_min_conn_time v,
                   failed_conns = v_total_failed v, conn_data = rd \<rparr>))"

fun rounds_loop ::
  "perf_dict \<Rightarrow> (string \<times> round_stats) list \<Rightarrow> py_error + (string \<times> round_stats) list" where
  "rounds_loop [] rounds_dict = Inr rounds_dict"
| "rounds_loop ((round_name, rd) # rest) rounds_dict =
     (case round_summary rd of
        Inl e \<Rightarrow> Inl e
      | Inr rs \<Rightarrow> rounds_loop rest (AList.update round_name rs rounds_dict))"

text \<open>
  \<^verbatim>\<open>gen_graph\<close> reads \<^verbatim>\<open>stats\<close> and draws with \<^verbatim>\<open>matplotlib.pyplot\<close>, the module global
  \<^verbatim>\<open>plt\<close>. What the library answers is an input of the model, the record \<open>pyplot\<close>:
  \<open>subplots cols\<close> is the outcome of \<^verbatim>\<open>plt.subplots(1, cols, figsize=(10, 1*5))\<close>;
  \<open>draw_round i name rs tw cps\<close> is the outcome of one pass of the loop of \<^verbatim>\<open>gen_graph\<close>
  after its test, that is of collecting the axes of the round \<open>name\<close> with the entry \<open>rs\<close>
  and drawing them on \<^verbatim>\<open>axs[i]\<close> with the target time \<open>tw\<close> and the speed \<open>cps\<close>;
  \<open>show_out\<close> is the outcome of \<^verbatim>\<open>plt.tight_layout()\<close> and \<^verbatim>\<open>plt.show()\<close>.
\<close>

record pyplot =
  subplots :: "nat \<Rightarrow> py_error + unit"
  draw_round :: "nat \<Rightarrow> string \<Rightarrow> round_stats \<Rightarrow> int \<Rightarrow> pynum \<Rightarrow> py_error + unit"
  show_out :: "py_error + unit"

text \<open>The loop \<^verbatim>\<open>for round_name, stress_round in perf_times.items()\<close> of \<^verbatim>\<open>gen_graph\<close>
  from \<^verbatim>\<open>round_index = i\<close> on, and the two calls after it. A round with fewer than two
  connections makes \<^verbatim>\<open>gen_graph\<close> print an error and return.\<close>

fun draw_rounds ::
  "pyplot \<Rightarrow> int \<Rightarrow> pynum \<Rightarrow> nat \<Rightarrow> (string \<times> round_stats) list \<Rightarrow> py_error + unit" where
  "draw_rounds plt tw cps i [] = show_out plt"
| "draw_rounds plt tw cps i ((round_name, stress_round) # rest) =
     (if length (conn_data stress_round) < 2 then Inr ()
      else
        (case draw_round plt i round_name stress_round tw cps of
           Inl e \<Rightarrow> Inl e
         | Inr u \<Rightarrow> draw_rounds plt tw cps (Suc i) rest))"

definition gen_graph :: "pyplot \<Rightarrow> stats \<Rightarrow> py_error + unit" where
  "gen_graph plt data =
     (case subplots plt (length (round_data data)) of
        Inl e \<Rightarrow> Inl e
      | Inr u \<Rightarrow>
         draw_rounds plt
           (if global_wait data > 0 then global_wait data else conn_wait data)
           (conns_per_sec data) 0 (round_data data))"

text \<open>The end of \<^verbatim>\<open>_calculate_stats\<close>: \<^verbatim>\<open>if graph: gen_graph(stats)\<close> and
  \<^verbatim>\<open>return stats\<close>.\<close>

definition graph_and_return :: "pyplot \<Rightarrow> bool \<Rightarrow> stats \<Rightarrow> py_error + stats" where
  "graph_and_return plt graph st =
     (if graph then (case gen_graph plt st of Inl e \<Rightarrow> Inl e | Inr u \<Rightarrow> Inr st) else Inr st)"

text \<open>\<^verbatim>\<open>SSHstress._calculate_stats\<close>; the first argument is the module global \<^verbatim>\<open>plt\<close>.\<close>

definition calculate_stats ::
  "pyplot \<Rightarrow> perf_dict \<Rightarrow> int \<Rightarrow> int \<Rightarrow> pynum \<Rightarrow> int \<Rightarrow> int \<Rightarrow> bool \<Rightarrow> string \<Rightarrow>
   py_error + stats" where
  "calculate_stats plt perf_times conns rnds cps cw gw graph stype =
     (case rounds_loop perf_times [] of
        Inl e \<Rightarrow> Inl e
      | Inr rounds_dict \<Rightarrow>
         graph_and_return plt graph
           \<lparr> stress_type = stype, rounds = rnds, conns_per_round = conns,
             total_conns = conns * rnds, conns_per_sec = cps, conn_wait = cw,
             global_wait = gw, round_data = rounds_dict \<rparr>)"
section \<open>The statistics on a store of objects\<close>

text \<open>
  A Python dict is an object, and \<^verbatim>\<open>perf_times\<close> holds references: to the dicts of the
  rounds, which hold references to the \<^verbatim>\<open>conn_stat\<close> dicts; the entry that
  \<^verbatim>\<open>_calculate_stats\<close> makes for a round refers, under \<^verbatim>\<open>conn_data\<close>, to the dict of the
  round it was given. To say what a call does to the objects it is given,
  \<^verbatim>\<open>_calculate_stats\<close> is modelled a second time, on a store: the list of all objects, an
  object's address being its index. A dict literal and \<^verbatim>\<open>{}\<close> put a new object at the end
  of the store, \<^verbatim>\<open>d[k] = v\<close> replaces the object of \<^verbatim>\<open>d\<close>. The store is typed: an object is
  one of the six kinds of dict of the program, and reading an address that holds another
  kind is a \<^verbatim>\<open>TypeError\<close>.
\<close>

datatype pyobj =
    ConnStat conn_stat
  | RoundDict "(int \<times> nat) list"
  | PerfDict "(string \<times> nat) list"
  | RoundEntry "nat round_stats_of"
  | RoundsDict "(string \<times> nat) list"
  | Stats "nat option stats_of"

type_synonym store = "pyobj list"

definition lookup :: "store \<Rightarrow> nat \<Rightarrow> pyobj option" where
  "lookup h a = (if a < length h then Some (h ! a) else None)"

definition new_obj :: "store \<Rightarrow> pyobj \<Rightarrow> store \<times> nat" where
  "new_obj h ob = (h @ [ob], length h)"

text \<open>\<^verbatim>\<open>for data in round_data.values()\<close>, on the references of a round dict.\<close>

fun tally_refs :: "store \<Rightarrow> nat list \<Rightarrow> round_vars \<Rightarrow> py_error + round_vars" where
  "tally_refs h [] v = Inr v"
| "tally_refs h (a # as) v =
     (case lookup h a of
        Some (ConnStat d) \<Rightarrow>
          (case tally d v of Inl e \<Rightarrow> Inl e | Inr v' \<Rightarrow> tally_refs h as v')
      | _ \<Rightarrow> Inl TypeError)"

text \<open>One pass of the outer loop, for the round dict at address \<open>a\<close>: the content of the
  dict that is then stored under \<^verbatim>\<open>rounds_dict[round_name]\<close>.\<close>

definition round_summary_st :: "store \<Rightarrow> nat \<Rightarrow> py_error + nat round_stats_of" where
  "round_summary_st h a =
     (case lookup h a of
        Some (RoundDict rd) \<Rightarrow>
          (case tally_refs h (map snd rd) round_vars_init of
             Inl e \<Rightarrow> Inl e
           | Inr v \<Rightarrow>
              (case averages (v_total_auth_time v) (v_total_conn_time v)
                      (int (length rd) - v_total_failed v) of
                 Inl e \<Rightarrow> Inl e
               | Inr (aa, ac) \<Rightarrow>
                  Inr \<lparr> avg_auth_time = aa, avg_conn_time = ac,
                        max_auth_time = v_max_auth_time v, max_conn_time = v_max_conn_time v,
                        min_auth_time = v_min_auth_time v, min_conn_time = v_min_conn_time v,
                        failed_conns = v_total_failed v, conn_data = a \<rparr>))
      | _ \<Rightarrow> Inl TypeError)"

text \<open>The outer loop; \<open>rda\<close> is the address of \<^verbatim>\<open>rounds_dict\<close>.\<close>

fun rounds_loop_st :: "(string \<times> nat) list \<Rightarrow> nat \<Rightarrow> store \<Rightarrow> py_error + store" where
  "rounds_loop_st [] rda h = Inr h"
| "rounds_loop_st ((round_name, a) # rest) rda h =
     (case round_summary_st h a of
        Inl e \<Rightarrow> Inl e
      | Inr rs \<Rightarrow>
         (case new_obj h (RoundEntry rs) of
            (h1, ra) \<Rightarrow>
              (case lookup h1 rda of
                 Some (RoundsDict entries) \<Rightarrow>
                   rounds_loop_st rest rda
                     (h1[rda := RoundsDict (AList.update round_name ra entries)])
               | _ \<Rightarrow> Inl TypeError)))"

text \<open>The value of a dict in a store: the dict with the values of the objects it refers to
  in place of the references, if all of them are there and of the right kind.\<close>

definition load_conn :: "store \<Rightarrow> nat \<Rightarrow> conn_stat option" where
  "load_conn h a = (case lookup h a of Some (ConnStat d) \<Rightarrow> Some d | _ \<Rightarrow> None)"

definition load_round :: "store \<Rightarrow> nat \<Rightarrow> round_dict option" where
  "load_round h a =
     (case lookup h a of
        Some (RoundDict rd) \<Rightarrow> those (map (\<lambda>(k, r). map_option (Pair k) (load_conn h r)) rd)
      | _ \<Rightarrow> None)"

definition load_perf :: "store \<Rightarrow> nat \<Rightarrow> perf_dict option" where
  "load_perf h a =
     (case lookup h a of
        Some (PerfDict items) \<Rightarrow> those (map (\<lambda>(n, r). map_option (Pair n) (load_round h r)) items)
      | _ \<Rightarrow> None)"

definition with_conn_data :: "'a round_stats_of \<Rightarrow> 'b \<Rightarrow> 'b round_stats_of" where
  "with_conn_data rs d =
     \<lparr> avg_auth_time = avg_auth_time rs, avg_conn_time = avg_conn_time rs,
       max_auth_time = max_auth_time rs, max_conn_time = max_conn_time rs,
       min_auth_time = min_auth_time rs, min_conn_time = min_conn_time rs,
       failed_conns = failed_conns rs, conn_data = d \<rparr>"

definition load_entry :: "store \<Rightarrow> nat \<Rightarrow> round_stats option" where
  "load_entry h a =
     (case lookup h a of
        Some (RoundEntry rs) \<Rightarrow> map_option (with_conn_data rs) (load_round h (conn_data rs))
      | _ \<Rightarrow> None)"

definition load_rounds :: "store \<Rightarrow> nat \<Rightarrow> (string \<times> round_stats) list option" where
  "load_rounds h a =
     (case lookup h a of
        Some (RoundsDict entries) \<Rightarrow>
          those (map (\<lambda>(n, r). map_option (Pair n) (load_entry h r)) entries)
      | _ \<Rightarrow> None)"

definition load_stats :: "store \<Rightarrow> nat \<Rightarrow> stats option" where
  "load_stats h a =
     (case lookup h a of
        Some (Stats st) \<Rightarrow>
          (case round_data st of
             None \<Rightarrow> None
           | Some rda \<Rightarrow>
              map_option
                (\<lambda>rds. \<lparr> stress_type = stress_type st, rounds = rounds st,
                         conns_per_round = conns_per_round st, total_conns = total_conns st,
                         conns_per_sec = conns_per_sec st, conn_wait = conn_wait st,
                         global_wait = global_wait st, round_data = rds \<rparr>)
                (load_rounds h rda))
      | _ \<Rightarrow> None)"

text \<open>
  \<^verbatim>\<open>SSHstress._calculate_stats\<close> on the store: \<open>p\<close> is the address of \<^verbatim>\<open>perf_times\<close>, the
  result the new store and the address of \<^verbatim>\<open>stats\<close>. \<^verbatim>\<open>gen_graph\<close> writes to no object
  of the store; what it reads of \<^verbatim>\<open>stats\<close> is its value.
\<close>

definition graph_and_return_st ::
  "pyplot \<Rightarrow> bool \<Rightarrow> store \<Rightarrow> nat \<Rightarrow> py_error + store \<times> nat" where
  "graph_and_return_st plt graph h sa =
     (if graph then
        (case load_stats h sa of
           None \<Rightarrow> Inl TypeError
         | Some st \<Rightarrow> (case gen_graph plt st of Inl e \<Rightarrow> Inl e | Inr u \<Rightarrow> Inr (h, sa)))
      else Inr (h, sa))"

definition calculate_stats_st ::
  "pyplot \<Rightarrow> store \<Rightarrow> nat \<Rightarrow> int \<Rightarrow> int \<Rightarrow> pynum \<Rightarrow> int \<Rightarrow> int \<Rightarrow> bool \<Rightarrow> string \<Rightarrow>
   py_error + store \<times> nat" where
  "calculate_stats_st plt h p conns rnds cps cw gw graph stype =
     (case new_obj h (Stats \<lparr> stress_type = stype, rounds = rnds, conns_per_round = conns,
                             total_conns = conns * rnds, conns_per_sec = cps, conn_wait = cw,
                             global_wait = gw, round_data = None \<rparr>) of
        (h1, sa) \<Rightarrow>
          (case new_obj h1 (RoundsDict []) of
             (h2, rda) \<Rightarrow>
               (case lookup h2 p of
                  Some (PerfDict items) \<Rightarrow>
                    (case rounds_loop_st items rda h2 of
                       Inl e \<Rightarrow> Inl e
                     | Inr h3 \<Rightarrow>
                        (case lookup h3 sa of
                           Some (Stats st) \<Rightarrow>
                             graph_and_return_st plt graph
                               (h3[sa := Stats (st\<lparr> round_data := Some rda \<rparr>)]) sa
                         | _ \<Rightarrow> Inl TypeError))
                | _ \<Rightarrow> Inl TypeError)))"
section \<open>Connection attempts\<close>

text \<open>
  An attempt (\<^verbatim>\<open>_sftp\<close>, \<^verbatim>\<open>_ssh\<close>) talks to the SSH library, the clock and the event loop.
  What they answer to one attempt is an input of the model, the record \<open>world\<close>: each
  awaited call either raises an exception or returns. An exception is its class, as far
  as the \<^verbatim>\<open>except\<close> clause of the attempts tells classes apart, and the text of
  \<^verbatim>\<open>str(e)\<close>.
\<close>

datatype exc_kind = OSError | AsyncsshError | AsyncioTimeoutError | OtherException

datatype exc = Exc exc_kind string

fun exc_str :: "exc \<Rightarrow> string" where
  "exc_str (Exc k m) = m"

text \<open>\<^verbatim>\<open>except (OSError, asyncssh.Error, asyncio.TimeoutError) as e\<close>\<close>

fun caught :: "exc \<Rightarrow> bool" where
  "caught (Exc OSError m) = True"
| "caught (Exc AsyncsshError m) = True"
| "caught (Exc AsyncioTimeoutError m) = True"
| "caught (Exc OtherException m) = False"

datatype 'a outcome = Raises exc | Returns 'a

text \<open>What an attempt does between the remote operation and \<^verbatim>\<open>conn.close()\<close>: poll the
  flag \<^verbatim>\<open>wait\<close> every 0.1 s until it is false, or sleep \<^verbatim>\<open>conn_wait\<close> seconds.\<close>

datatype hold = UntilDropped | Sleep int

text \<open>
  \<open>start_clock\<close> is the reading of \<^verbatim>\<open>time.perf_counter()\<close> before the connection is
  opened, \<open>connect_out\<close> the reading after \<^verbatim>\<open>asyncssh.connect\<close> has connected and
  authenticated, \<open>hold_out\<close> the reading after the hold and \<^verbatim>\<open>conn.close()\<close>.
  \<open>reached_hold\<close> is the time, in seconds since the timer thread of the round was
  started, at which the attempt reads the flag \<^verbatim>\<open>wait\<close>. Leaving the \<^verbatim>\<open>async with\<close>
  blocks is taken not to raise.
\<close>

record world =
  start_clock :: pyfloat
  connect_out :: "pyfloat outcome"
  sftp_client_out :: "unit outcome"
  listdir_out :: "string list outcome"
  run_out :: "string outcome"
  reached_hold :: rat
  hold_out :: "hold \<Rightarrow> pyfloat outcome"

fun fneg :: "pyfloat \<Rightarrow> pyfloat" where
  "fneg (Finite a) = Finite (- a)"
| "fneg PInf = NInf"
| "fneg NInf = PInf"
| "fneg NaN = NaN"

definition fsub :: "pyfloat \<Rightarrow> pyfloat \<Rightarrow> pyfloat" where
  "fsub a b = fadd a (fneg b)"

text \<open>
  \<^verbatim>\<open>drop_all_timer(n)\<close> runs in a thread of its own and writes the global \<^verbatim>\<open>wait\<close>.
  \<open>drop_all_timer n t\<close> is the value of \<^verbatim>\<open>wait\<close> at \<open>t\<close> seconds after the thread was
  started: false throughout for \<open>n = 0\<close>; otherwise true until \<^verbatim>\<open>time.sleep(n)\<close> returns
  and false from then on. A negative \<open>n\<close> makes \<^verbatim>\<open>time.sleep\<close> raise in the thread, after
  \<^verbatim>\<open>wait=True\<close> and before \<^verbatim>\<open>wait=False\<close>.
\<close>

definition drop_all_timer :: "int \<Rightarrow> rat \<Rightarrow> bool" where
  "drop_all_timer n t = (if n = 0 then False else if n < 0 then True else t < of_int n)"

text \<open>
  \<^verbatim>\<open>wait\<close> is one variable of the module, and a timer thread is never joined: the thread
  of an earlier call of \<^verbatim>\<open>_hammer\<close> that is still asleep sets \<^verbatim>\<open>wait\<close> to false when it wakes
  up, during a later call. \<open>wait_flag n pending t\<close> is the value of \<^verbatim>\<open>wait\<close> at \<open>t\<close> seconds
  after the timer thread of a call was started with \<open>n\<close>, where \<open>pending\<close> are the times,
  counted from the same instant, at which the threads of earlier calls execute their
  \<^verbatim>\<open>wait=False\<close>: the value that the call's own thread gives, until the first of these
  writes that comes after the own thread has started. (What earlier threads wrote before
  that is overwritten by the first statement of the own thread; the attempts of a call
  read \<^verbatim>\<open>wait\<close> after it.)
\<close>

definition wait_flag :: "int \<Rightarrow> rat list \<Rightarrow> rat \<Rightarrow> bool" where
  "wait_flag n pending t = (drop_all_timer n t \<and> \<not> list_ex (\<lambda>p. 0 < p \<and> p \<le> t) pending)"

text \<open>The \<^verbatim>\<open>if wait: ... else: ...\<close> of both attempts.\<close>

definition hold_phase :: "bool \<Rightarrow> int \<Rightarrow> hold" where
  "hold_phase wait cw = (if wait then UntilDropped else Sleep cw)"

text \<open>The \<^verbatim>\<open>except\<close> clause: an exception of the three classes becomes a failed
  \<^verbatim>\<open>conn_stat\<close>, any other one leaves the attempt.\<close>

definition except_clause :: "int \<Rightarrow> exc \<Rightarrow> exc + conn_stat" where
  "except_clause count e =
     (if caught e
      then Inr \<lparr> conn_id = count, success = False, auth_time = None, conn_time = None,
                 results = ErrorText (exc_str e) \<rparr>
      else Inl e)"

text \<open>\<^verbatim>\<open>SSHstress._sftp\<close>; the first argument is the global \<^verbatim>\<open>wait\<close> over time.\<close>

definition sftp :: "(rat \<Rightarrow> bool) \<Rightarrow> int \<Rightarrow> string \<Rightarrow> int \<Rightarrow> string \<Rightarrow> world \<Rightarrow> exc + conn_stat" where
  "sftp wait count usr cw sftp_ls w =
     (case connect_out w of
        Raises e \<Rightarrow> except_clause count e
      | Returns t1 \<Rightarrow>
         (case sftp_client_out w of
            Raises e \<Rightarrow> except_clause count e
          | Returns u \<Rightarrow>
             (case listdir_out w of
                Raises e \<Rightarrow> except_clause count e
              | Returns result \<Rightarrow>
                 (case hold_out w (hold_phase (wait (reached_hold w)) cw) of
                    Raises e \<Rightarrow> except_clause count e
                  | Returns t2 \<Rightarrow>
                     Inr \<lparr> conn_id = count, success = True,
                           auth_time = Some (fsub t1 (start_clock w)),
                           conn_time = Some (fsub t2 (start_clock w)),
                           results = Listing result \<rparr>))))"

text \<open>\<^verbatim>\<open>SSHstress._ssh\<close>\<close>

definition ssh :: "(rat \<Rightarrow> bool) \<Rightarrow> int \<Rightarrow> string \<Rightarrow> int \<Rightarrow> world \<Rightarrow> exc + conn_stat" where
  "ssh wait count usr cw w =
     (case connect_out w of
        Raises e \<Rightarrow> except_clause count e
      | Returns t1 \<Rightarrow>
         (case run_out w of
            Raises e \<Rightarrow> except_clause count e
          | Returns result \<Rightarrow>
             (case hold_out w (hold_phase (wait (reached_hold w)) cw) of
                Raises e \<Rightarrow> except_clause count e
              | Returns t2 \<Rightarrow>
                 Inr \<lparr> conn_id = count, success = True,
                       auth_time = Some (fsub t1 (start_clock w)),
                       conn_time = Some (fsub t2 (start_clock w)),
                       results = Completed result \<rparr>)))"

section \<open>The scheduler loop\<close>

text \<open>
  \<^verbatim>\<open>SSHstress._hammer\<close>. A task is the pair of arguments its coroutine was created
  with (the id and the user name); every \<^verbatim>\<open>create_task\<close> makes a new object, so the set
  \<^verbatim>\<open>tasks\<close> is the list of the tasks added and not yet taken out, and \<^verbatim>\<open>len(tasks)\<close> its
  length. \<open>user\<close> is the number of \<^verbatim>\<open>next(self.user)\<close> calls made on the instance so far,
  \<open>launched\<close> the arguments of the attempts created in this call, in order.
\<close>

record hammer_state =
  count :: int
  tasks :: "(int \<times> string) list"
  perf_times :: round_dict
  user :: nat
  launched :: "(int \<times> string) list"

text \<open>Where the loop stands: at the test of the outer \<^verbatim>\<open>while\<close>, at the test of the inner
  one, after \<^verbatim>\<open>return perf_times\<close>, or left by an exception.\<close>

datatype pc = LoopHead | Refill | Returned | Raised exc

text \<open>\<^verbatim>\<open>for task in done: results = task.result(); perf_times[results['id']] = results\<close>,
  on the results of the tasks of \<^verbatim>\<open>done\<close>: \<^verbatim>\<open>task.result()\<close> raises what the task raised.\<close>

fun reap :: "(exc + conn_stat) list \<Rightarrow> round_dict \<Rightarrow> exc + round_dict" where
  "reap [] pt = Inr pt"
| "reap (Inl e # rs) pt = Inl e"
| "reap (Inr res # rs) pt = reap rs (AList.update (conn_id res) res pt)"

text \<open>\<^verbatim>\<open>next(self.user)\<close> on \<^verbatim>\<open>cycle(target_users)\<close> after \<open>n\<close> earlier calls.\<close>

definition next_user :: "string list \<Rightarrow> nat \<Rightarrow> string" where
  "next_user users n = users ! (n mod length users)"

text \<open>
  One step of the loop. \<^verbatim>\<open>asyncio.wait(tasks, return_when=FIRST_COMPLETED)\<close> returns a
  non-empty set \<open>dn\<close> of finished tasks, in any order, and the rest of \<^verbatim>\<open>tasks\<close>; \<open>run\<close>
  gives the result of a task. The parameters are \<^verbatim>\<open>conns\<close>,
  \<^verbatim>\<open>self.max_concurrent_tasks\<close> and the list \<^verbatim>\<open>target_users\<close> that \<^verbatim>\<open>self.user\<close> cycles
  through (\<^verbatim>\<open>next\<close> on the cycle of an empty list raises).
\<close>

inductive hammer_step ::
  "int \<Rightarrow> int \<Rightarrow> string list \<Rightarrow> (int \<times> string \<Rightarrow> exc + conn_stat) \<Rightarrow>
   pc \<Rightarrow> hammer_state \<Rightarrow> pc \<Rightarrow> hammer_state \<Rightarrow> bool"
  for conns :: int and maxc :: int and users :: "string list"
    and run :: "int \<times> string \<Rightarrow> exc + conn_stat"
where
  head_reap:
    "count s < conns \<or> tasks s \<noteq> [] \<Longrightarrow> tasks s \<noteq> [] \<Longrightarrow>
     dn \<noteq> [] \<Longrightarrow> distinct dn \<Longrightarrow> set dn \<subseteq> set (tasks s) \<Longrightarrow>
     reap (map run dn) (perf_times s) = Inr pt \<Longrightarrow>
     hammer_step conns maxc users run LoopHead s
       Refill (s\<lparr> tasks := filter (\<lambda>t. t \<notin> set dn) (tasks s), perf_times := pt \<rparr>)"
| head_raise:
    "count s < conns \<or> tasks s \<noteq> [] \<Longrightarrow> tasks s \<noteq> [] \<Longrightarrow>
     dn \<noteq> [] \<Longrightarrow> distinct dn \<Longrightarrow> set dn \<subseteq> set (tasks s) \<Longrightarrow>
     reap (map run dn) (perf_times s) = Inl e \<Longrightarrow>
     hammer_step conns maxc users run LoopHead s
       (Raised e) (s\<lparr> tasks := filter (\<lambda>t. t \<notin> set dn) (tasks s) \<rparr>)"
| head_skip:
    "count s < conns \<or> tasks s \<noteq> [] \<Longrightarrow> tasks s = [] \<Longrightarrow>
     hammer_step conns maxc users run LoopHead s Refill s"
| head_exit:
    "\<not> (count s < conns \<or> tasks s \<noteq> []) \<Longrightarrow>
     hammer_step conns maxc users run LoopHead s Returned s"
| refill_launch:
    "count s < conns \<and> int (length (tasks s)) < maxc \<Longrightarrow> users \<noteq> [] \<Longrightarrow>
     t = (count s + 1, next_user users (user s)) \<Longrightarrow>
     hammer_step conns maxc users run Refill s
       Refill (s\<lparr> count := count s + 1, tasks := tasks s @ [t], user := user s + 1,
                   launched := launched s @ [t] \<rparr>)"
| refill_stop:
    "count s < conns \<and> int (length (tasks s)) < maxc \<Longrightarrow> users = [] \<Longrightarrow>
     hammer_step conns maxc users run Refill s
       (Raised (Exc OtherException ''coroutine raised StopIteration'')) (s\<lparr> count := count s + 1 \<rparr>)"
| refill_done:
    "\<not> (count s < conns \<and> int (length (tasks s)) < maxc) \<Longrightarrow>
     hammer_step conns maxc users run Refill s LoopHead s"

text \<open>The text of the \<^verbatim>\<open>ZeroDivisionError\<close> of \<^verbatim>\<open>1/conns_per_sec\<close>: that of the division
  of ints for an int zero, that of the division of floats for a float zero.\<close>

fun zero_division_text :: "pynum \<Rightarrow> string" where
  "zero_division_text (PyInt i) = ''division by zero''"
| "zero_division_text (PyFloat f) = ''float division by zero''"

text \<open>
  The configurations of one call, from its first statement on. \<open>cps\<close> is
  \<^verbatim>\<open>conns_per_sec\<close>: \<^verbatim>\<open>loop_speed = 1/conns_per_sec\<close> raises when it is zero. \<open>pos\<close> is the
  state of \<^verbatim>\<open>self.user\<close> when the call starts.
\<close>

definition hammer_init :: "nat \<Rightarrow> hammer_state" where
  "hammer_init pos = \<lparr> count = 0, tasks = [], perf_times = [], user = pos, launched = [] \<rparr>"

inductive hammer_reach ::
  "int \<Rightarrow> int \<Rightarrow> string list \<Rightarrow> (int \<times> string \<Rightarrow> exc + conn_stat) \<Rightarrow> pynum \<Rightarrow> nat \<Rightarrow>
   pc \<Rightarrow> hammer_state \<Rightarrow> bool"
  for conns :: int and maxc :: int and users :: "string list"
    and run :: "int \<times> string \<Rightarrow> exc + conn_stat" and cps :: pynum and pos :: nat
where
  enter:
    "\<not> py_eq cps (PyInt 0) \<Longrightarrow>
     hammer_reach conns maxc users run cps pos LoopHead (hammer_init pos)"
| enter_raise:
    "py_eq cps (PyInt 0) \<Longrightarrow>
     hammer_reach conns maxc users run cps pos
       (Raised (Exc OtherException (zero_division_text cps))) (hammer_init pos)"
| step:
    "hammer_reach conns maxc users run cps pos p s \<Longrightarrow>
     hammer_step conns maxc users run p s p' s' \<Longrightarrow>
     hammer_reach conns maxc users run cps pos p' s'"

text \<open>The coroutine a task runs: \<^verbatim>\<open>self._sftp(count, next(self.user), conn_wait,
  sftp_ls=sftp_ls)\<close> or \<^verbatim>\<open>self._ssh(count, next(self.user), conn_wait)\<close>; \<open>env\<close> gives the
  world of the attempt with a given id.\<close>

definition attempt ::
  "bool \<Rightarrow> (rat \<Rightarrow> bool) \<Rightarrow> int \<Rightarrow> string \<Rightarrow> (int \<Rightarrow> world) \<Rightarrow> int \<times> string \<Rightarrow> exc + conn_stat" where
  "attempt is_sftp wait cw sftp_ls env t =
     (if is_sftp then sftp wait (fst t) (snd t) cw sftp_ls (env (fst t))
      else ssh wait (fst t) (snd t) cw (env (fst t)))"

text \<open>The instance \<^verbatim>\<open>self\<close>, as far as the scheduler reads it.\<close>

record sshstress =
  target_users :: "string list"
  max_concurrent_tasks :: int

text \<open>
  \<^verbatim>\<open>_hammer(conns, conn_wait, global_wait, conns_per_sec, sftp, sftp_ls)\<close>. The timer
  thread that the call starts and the threads of earlier calls that are still pending
  (\<open>pending\<close>, as for \<open>wait_flag\<close>) make \<^verbatim>\<open>wait\<close> the flag \<open>wait_flag gw pending\<close>. In the
  first call of a program nothing is pending and the flag is \<open>drop_all_timer gw\<close>.
\<close>

definition hammer ::
  "sshstress \<Rightarrow> rat list \<Rightarrow> int \<Rightarrow> int \<Rightarrow> int \<Rightarrow> pynum \<Rightarrow> bool \<Rightarrow> string \<Rightarrow> (int \<Rightarrow> world) \<Rightarrow>
   nat \<Rightarrow> pc \<Rightarrow> hammer_state \<Rightarrow> bool" where
  "hammer self pending conns cw gw cps is_sftp sftp_ls env pos =
     hammer_reach conns (max_concurrent_tasks self) (target_users self)
       (attempt is_sftp (wait_flag gw pending) cw sftp_ls env) cps pos"

text \<open>
  Every run of the loop from the configuration \<open>(p, s)\<close> ends with \<^verbatim>\<open>return perf_times\<close>:
  the configuration is the one after the return, or it has a next step and each of its
  next steps leads to a configuration of this kind. A configuration left by an exception
  has no next step and is not of this kind; neither is one from which the loop can go on
  for ever.
\<close>

inductive hammer_ends ::
  "int \<Rightarrow> int \<Rightarrow> string list \<Rightarrow> (int \<times> string \<Rightarrow> exc + conn_stat) \<Rightarrow> pc \<Rightarrow> hammer_state \<Rightarrow> bool"
  for conns :: int and maxc :: int and users :: "string list"
    and run :: "int \<times> string \<Rightarrow> exc + conn_stat"
where
  ended: "hammer_ends conns maxc users run Returned s"
| goes_on:
    "hammer_step conns maxc users run p s p1 s1 \<Longrightarrow>
     (\<forall>p' s'. hammer_step conns maxc users run p s p' s' \<longrightarrow>
        hammer_ends conns maxc users run p' s') \<Longrightarrow>
     hammer_ends conns maxc users run p s"

section \<open>The round runner\<close>

text \<open>\<^verbatim>\<open>{k: times[k] for k in sorted(times)}\<close>\<close>

definition sort_by_id :: "round_dict \<Rightarrow> round_dict" where
  "sort_by_id d =
     List.map_filter (\<lambda>k. map_option (Pair k) (map_of d k)) (sort (map fst d))"

text \<open>\<^verbatim>\<open>str(n)\<close> for a natural number, and \<^verbatim>\<open>f"round_{stress_round}"\<close>.\<close>

fun str_nat :: "nat \<Rightarrow> string" where
  "str_nat n =
     (if n < 10 then [char_of (48 + n)] else str_nat (n div 10) @ [char_of (48 + n mod 10)])"

declare str_nat.simps [simp del]

definition round_key :: "nat \<Rightarrow> string" where
  "round_key n = ''round_'' @ str_nat n"

text \<open>
  The timer threads of the rounds. \<open>started r\<close> is the instant, on the clock of the
  program, at which the thread of round \<open>r\<close> is started. When round \<open>k + 1\<close> starts its
  thread, the threads of the rounds \<open>1..k\<close> execute their \<^verbatim>\<open>wait=False\<close> at the instants
  \<open>started j + global_wait\<close>, if \<^verbatim>\<open>global_wait\<close> is positive; a thread with
  \<^verbatim>\<open>global_wait = 0\<close> has returned at once, and with a negative one \<^verbatim>\<open>time.sleep\<close> has
  ended it. \<open>pending_writes gw started k\<close> are these instants, counted from the start of
  the thread of round \<open>k + 1\<close>.
\<close>

definition pending_writes :: "int \<Rightarrow> (nat \<Rightarrow> rat) \<Rightarrow> nat \<Rightarrow> rat list" where
  "pending_writes gw started k =
     (if 0 < gw then map (\<lambda>j. started j + of_int gw - started (Suc k)) [1..<Suc k] else [])"

text \<open>
  The loop \<^verbatim>\<open>for stress_round in range(rounds)\<close> of \<^verbatim>\<open>stress_sftp\<close> and \<^verbatim>\<open>stress_ssh\<close>:
  \<open>stress_rounds \<dots> k pt pos lg\<close> holds when, after \<open>k\<close> passes, \<^verbatim>\<open>perf_times\<close> is \<open>pt\<close>,
  \<^verbatim>\<open>self.user\<close> has been advanced \<open>pos\<close> times and the attempts created so far, over all
  rounds, are \<open>lg\<close>. \<open>env r\<close> gives the worlds of the attempts of round \<open>r\<close>. A pass whose
  \<^verbatim>\<open>_hammer\<close> raises leaves the loop and the function.
\<close>

inductive stress_rounds ::
  "sshstress \<Rightarrow> (nat \<Rightarrow> rat) \<Rightarrow> int \<Rightarrow> int \<Rightarrow> int \<Rightarrow> pynum \<Rightarrow> int \<Rightarrow> bool \<Rightarrow> string \<Rightarrow>
   (nat \<Rightarrow> int \<Rightarrow> world) \<Rightarrow> nat \<Rightarrow>
   nat \<Rightarrow> perf_dict \<Rightarrow> nat \<Rightarrow> (int \<times> string) list \<Rightarrow> bool"
  for self :: sshstress and started :: "nat \<Rightarrow> rat" and conns :: int and cw :: int
    and gw :: int and cps :: pynum
    and rnds :: int and is_sftp :: bool and sftp_ls :: string
    and env :: "nat \<Rightarrow> int \<Rightarrow> world" and pos0 :: nat
where
  before: "stress_rounds self started conns cw gw cps rnds is_sftp sftp_ls env pos0 0 [] pos0 []"
| pass:
    "stress_rounds self started conns cw gw cps rnds is_sftp sftp_ls env pos0 k pt pos lg \<Longrightarrow>
     int k < rnds \<Longrightarrow>
     hammer self (pending_writes gw started k) conns cw gw cps is_sftp sftp_ls (env (Suc k)) pos
       Returned s \<Longrightarrow>
     stress_rounds self started conns cw gw cps rnds is_sftp sftp_ls env pos0 (Suc k)
       (AList.update (round_key (Suc k)) (sort_by_id (perf_times s)) pt)
       (user s) (lg @ launched s)"






section \<open>The failure of an attempt\<close>

text \<open>
  The specification speaks of a failure raised during an attempt's connect, authenticate,
  run-operation or wait phase. \<open>attempt_failure\<close> states it in these words, apart from
  the code of the attempts: it is the exception raised by the first of these phases that
  raises one, given what the attempt does in its wait phase (\<open>h\<close>); connecting and
  authenticating are the one call \<^verbatim>\<open>asyncssh.connect\<close>, the operation of \<^verbatim>\<open>_sftp\<close> is
  opening the SFTP client and listing the directory, that of \<^verbatim>\<open>_ssh\<close> is \<^verbatim>\<open>conn.run\<close>.
\<close>

fun raised :: "'a outcome \<Rightarrow> exc option" where
  "raised (Raises e) = Some e"
| "raised (Returns x) = None"

definition attempt_failure :: "bool \<Rightarrow> hold \<Rightarrow> world \<Rightarrow> exc option" where
  "attempt_failure is_sftp h w =
     (case raised (connect_out w) of
        Some e \<Rightarrow> Some e
      | None \<Rightarrow>
         (if is_sftp then
            (case raised (sftp_client_out w) of
               Some e \<Rightarrow> Some e
             | None \<Rightarrow>
                (case raised (listdir_out w) of
                   Some e \<Rightarrow> Some e
                 | None \<Rightarrow> raised (hold_out w h)))
          else
            (case raised (run_out w) of
               Some e \<Rightarrow> Some e
             | None \<Rightarrow> raised (hold_out w h))))"

section \<open>Invariants and example inputs\<close>

text \<open>The invariant of the loop of \<^verbatim>\<open>_hammer\<close> on the ids: the ids given out so far are
  \<open>1..count\<close>, each of them belongs either to a task of \<^verbatim>\<open>tasks\<close> or to an entry of
  \<^verbatim>\<open>perf_times\<close>, and the user names were taken from the cycle in order.\<close>

definition ids_inv :: "int \<Rightarrow> nat \<Rightarrow> string list \<Rightarrow> hammer_state \<Rightarrow> bool" where
  "ids_inv conns pos users s =
     (0 \<le> count s \<and> (count s \<le> conns \<or> count s = 0) \<and>
       map fst (launched s) = [1..count s] \<and>
       distinct (map fst (tasks s)) \<and> distinct (map fst (perf_times s)) \<and>
       fst ` set (tasks s) \<union> fst ` set (perf_times s) = {1..count s} \<and>
       fst ` set (tasks s) \<inter> fst ` set (perf_times s) = {} \<and>
       list_all (\<lambda>p. conn_id (snd p) = fst p) (perf_times s) \<and>
       user s = pos + length (launched s) \<and>
       map snd (launched s) = map (\<lambda>j. next_user users (pos + j)) [0..<length (launched s)])"



text \<open>The invariant of the loop over the rounds: the names of the entries made so far,
  where each entry comes from, where \<^verbatim>\<open>self.user\<close> stands and which attempts have been
  created.\<close>

definition rounds_inv ::
  "sshstress \<Rightarrow> (nat \<Rightarrow> rat) \<Rightarrow> int \<Rightarrow> int \<Rightarrow> int \<Rightarrow> pynum \<Rightarrow> bool \<Rightarrow> string \<Rightarrow>
   (nat \<Rightarrow> int \<Rightarrow> world) \<Rightarrow> nat \<Rightarrow>
   nat \<Rightarrow> perf_dict \<Rightarrow> nat \<Rightarrow> (int \<times> string) list \<Rightarrow> bool" where
  "rounds_inv self started conns cw gw cps is_sftp sftp_ls env pos0 k pt pos lg =
     (map fst pt = map round_key [1..<Suc k] \<and>
      (\<forall>i<k. \<exists>s. hammer self (pending_writes gw started i) conns cw gw cps is_sftp sftp_ls
                    (env (Suc i)) (pos0 + i * nat conns) Returned s \<and>
                  snd (pt ! i) = sort_by_id (perf_times s) \<and>
                  set (snd (pt ! i)) = set (perf_times s) \<and>
                  map fst (snd (pt ! i)) = [1..conns]) \<and>
      pos = pos0 + k * nat conns \<and>
      map fst lg = concat (replicate k [1..conns]) \<and>
      map snd lg = map (\<lambda>j. next_user (target_users self) (pos0 + j)) [0..<k * nat conns])"

text \<open>For the store: \<open>frame h0 h\<close> says that \<open>h\<close> still holds the objects of \<open>h0\<close>;
  \<open>entry_rel\<close> relates an entry of \<^verbatim>\<open>rounds_dict\<close> in the store to its value.\<close>

definition frame :: "store \<Rightarrow> store \<Rightarrow> bool" where
  "frame h0 h = (length h0 \<le> length h \<and> (\<forall>a<length h0. h ! a = h0 ! a))"

definition entry_rel :: "store \<Rightarrow> nat \<Rightarrow> store \<Rightarrow> string \<times> nat \<Rightarrow> string \<times> round_stats \<Rightarrow> bool" where
  "entry_rel h0 rda h x y =
     (fst y = fst x \<and> rda < snd x \<and> snd x < length h \<and>
      (\<exists>rs. h ! snd x = RoundEntry rs \<and> load_round h0 (conn_data rs) = Some (conn_data (snd y)) \<and>
            snd y = with_conn_data rs (conn_data (snd y))))"

text \<open>A plotting library that draws whatever it is asked to.\<close>

definition drawing :: pyplot where
  "drawing =
     \<lparr> subplots = (\<lambda>cols. Inr ()), draw_round = (\<lambda>i name rs tw cps. Inr ()),
       show_out = Inr () \<rparr>"

text \<open>A world in which the server refuses the connection, and the outcome of an attempt
  in it.\<close>

definition refused :: world where
  "refused =
     \<lparr> start_clock = Finite 0, connect_out = Raises (Exc OSError ''Connection refused''),
       sftp_client_out = Returns (), listdir_out = Returns [], run_out = Returns [],
       reached_hold = 0, hold_out = (\<lambda>h. Returns (Finite 0)) \<rparr>"

definition refused_stat :: "int \<Rightarrow> conn_stat" where
  "refused_stat i =
     \<lparr> conn_id = i, success = False, auth_time = None, conn_time = None,
       results = ErrorText ''Connection refused'' \<rparr>"

text \<open>Timer threads that are started one second after another.\<close>

definition one_apart :: "nat \<Rightarrow> rat" where
  "one_apart r = of_nat r"

text \<open>An instance with three user names that runs one attempt at a time.\<close>

definition three_users :: sshstress where
  "three_users = \<lparr> target_users = [''root'', ''admin'', ''guest''], max_concurrent_tasks = 1 \<rparr>"

text \<open>A world in which \<^verbatim>\<open>asyncssh.connect\<close> cannot read the client key: it raises
  \<^verbatim>\<open>KeyImportError\<close>, a subclass of \<^verbatim>\<open>ValueError\<close>.\<close>

definition bad_key :: world where
  "bad_key =
     \<lparr> start_clock = Finite 0,
       connect_out = Raises (Exc OtherException
         ''Passphrase must be specified to import encrypted private keys''),
       sftp_client_out = Returns (), listdir_out = Returns [], run_out = Returns [],
       reached_hold = 0, hold_out = (\<lambda>h. Returns (Finite 0)) \<rparr>"

text \<open>A world in which connecting takes one second and the listing another one, so that
  the attempt reaches its wait phase two seconds after the round started; the connection
  is closed as soon as the wait is over.\<close>

definition late :: world where
  "late =
     \<lparr> start_clock = Finite 0, connect_out = Returns (Finite 1),
       sftp_client_out = Returns (), listdir_out = Returns [''etc''], run_out = Returns ''ok'',
       reached_hold = 2,
       hold_out = (\<lambda>h. case h of UntilDropped \<Rightarrow> Returns (Finite 2)
                               | Sleep n \<Rightarrow> Returns (Finite (2 + of_int n))) \<rparr>"

text \<open>Two stores that hold the same \<^verbatim>\<open>perf_times\<close>, two rounds of two refused attempts, at
  different addresses; in the first one both rounds are the same dict.\<close>

definition store_a :: store where
  "store_a =
     [ConnStat (refused_stat 1), ConnStat (refused_stat 2), RoundDict [(1, 0), (2, 1)],
      PerfDict [(''round_1'', 2), (''round_2'', 2)]]"

definition store_b :: store where
  "store_b =
     [PerfDict [(''round_1'', 3), (''round_2'', 4)], ConnStat (refused_stat 2),
      ConnStat (refused_stat 1), RoundDict [(1, 2), (2, 1)], RoundDict [(1, 2), (2, 1)]]"

section \<open>The float model\<close>



lemma pow2_pos: "0 < pow2 e"
  by (simp add: pow2_def)



lemma round_half_even_near: "\<bar>of_int (round_half_even x) - x\<bar> \<le> 1 / 2"
proof -
  let ?f = "\<lfloor>x\<rfloor>"
  let ?d = "x - of_int ?f"
  have d0: "0 \<le> ?d" and d1: "?d < 1" by linarith+
  have "round_half_even x = ?f \<and> ?d \<le> 1 / 2 \<or> round_half_even x = ?f + 1 \<and> 1 / 2 \<le> ?d"
    by (simp add: round_half_even_def Let_def)
  then show ?thesis
  proof
    assume "round_half_even x = ?f \<and> ?d \<le> 1 / 2"
    then have e: "round_half_even x = ?f" and h: "?d \<le> 1 / 2" by simp_all
    from d0 h show ?thesis unfolding e by linarith
  next
    assume "round_half_even x = ?f + 1 \<and> 1 / 2 \<le> ?d"
    then have r: "round_half_even x = ?f + 1" and h: "1 / 2 \<le> ?d" by simp_all
    have "of_int (?f + 1) - x = 1 - ?d" by simp
    with d1 h show ?thesis unfolding r by linarith
  qed
qed

text \<open>The value of \<open>fl\<close> differs from the exact number by at most half a quantum.\<close>

lemma fl_near:
  assumes "fl x = Finite r"
  shows "\<bar>r - x\<bar> \<le> pow2 (max (ilog2 \<bar>x\<bar>) (- 1022) - 52) / 2"
proof (cases "x = 0")
  case True
  with assms have "r = 0" by (simp add: fl_def)
  with True show ?thesis using pow2_pos [of "max (ilog2 \<bar>x\<bar>) (- 1022) - 52"] by simp
next
  case False
  let ?q = "pow2 (max (ilog2 \<bar>x\<bar>) (- 1022) - 52)"
  let ?m = "round_half_even (\<bar>x\<bar> / ?q)"
  have q: "0 < ?q" by (rule pow2_pos)
  from assms False have r: "r = (if x < 0 then - (of_int ?m * ?q) else of_int ?m * ?q)"
    by (simp add: fl_def Let_def split: if_splits)
  have "\<bar>of_int ?m - \<bar>x\<bar> / ?q\<bar> \<le> 1 / 2" by (rule round_half_even_near)
  then have "\<bar>of_int ?m - \<bar>x\<bar> / ?q\<bar> * ?q \<le> 1 / 2 * ?q" using q by (simp only: mult_le_cancel_right_pos)
  moreover have "\<bar>of_int ?m - \<bar>x\<bar> / ?q\<bar> * ?q = \<bar>of_int ?m * ?q - \<bar>x\<bar>\<bar>"
  proof -
    have "\<bar>of_int ?m - \<bar>x\<bar> / ?q\<bar> * ?q = \<bar>(of_int ?m - \<bar>x\<bar> / ?q) * ?q\<bar>"
      using q by (simp add: abs_mult)
    also have "(of_int ?m - \<bar>x\<bar> / ?q) * ?q = of_int ?m * ?q - \<bar>x\<bar>"
      using q by (simp add: field_simps)
    finally show ?thesis .
  qed
  ultimately have "\<bar>of_int ?m * ?q - \<bar>x\<bar>\<bar> \<le> ?q / 2" by simp
  then show ?thesis unfolding r by (auto simp: abs_if split: if_splits)
qed

subsection \<open>Evaluating it\<close>

text \<open>A positive number in the normal range rounds to the multiple of its quantum that
  \<^const>\<open>round_half_even\<close> picks.\<close>

lemma fl_normal:
  assumes "0 < x" "ilog2 x = e" "- 1022 \<le> e" "round_half_even (x / pow2 (e - 52)) = m"
    "of_int m * pow2 (e - 52) < pow2 1024"
  shows "fl x = Finite (of_int m * pow2 (e - 52))"
proof -
  have "max (ilog2 x) (- 1022) = e" using assms by simp
  then show ?thesis using assms by (simp add: fl_def Let_def)
qed


lemma fl_tenth: "fl (1 / 10) = Finite (3602879701896397 / 36028797018963968)"
proof -
  have e: "ilog2 (1 / 10) = - 4" by code_simp
  have m: "round_half_even (1 / 10 / pow2 (- 4 - 52)) = 7205759403792794" by code_simp
  have "fl (1 / 10) = Finite (of_int 7205759403792794 * pow2 (- 4 - 52))"
    by (rule fl_normal [OF _ e _ m]) (simp_all add: pow2_def)
  then show ?thesis by (simp add: pow2_def)
qed

lemma fl_fifth: "fl (1 / 5) = Finite (3602879701896397 / 18014398509481984)"
proof -
  have e: "ilog2 (1 / 5) = - 3" by code_simp
  have m: "round_half_even (1 / 5 / pow2 (- 3 - 52)) = 7205759403792794" by code_simp
  have "fl (1 / 5) = Finite (of_int 7205759403792794 * pow2 (- 3 - 52))"
    by (rule fl_normal [OF _ e _ m]) (simp_all add: pow2_def)
  then show ?thesis by (simp add: pow2_def)
qed

lemma fl_three_tenths: "fl (3 / 10) = Finite (5404319552844595 / 18014398509481984)"
proof -
  have e: "ilog2 (3 / 10) = - 2" by code_simp
  have m: "round_half_even (3 / 10 / pow2 (- 2 - 52)) = 5404319552844595" by code_simp
  have "fl (3 / 10) = Finite (of_int 5404319552844595 * pow2 (- 2 - 52))"
    by (rule fl_normal [OF _ e _ m]) (simp_all add: pow2_def)
  then show ?thesis by (simp add: pow2_def)
qed

lemma fl_sum1: "fl (0 + 3602879701896397 / 36028797018963968) = Finite (3602879701896397 / 36028797018963968)"
proof -
  have e: "ilog2 (3602879701896397 / 36028797018963968) = - 4" by code_simp
  have m: "round_half_even (3602879701896397 / 36028797018963968 / pow2 (- 4 - 52)) = 7205759403792794" by code_simp
  have "fl (3602879701896397 / 36028797018963968) = Finite (of_int 7205759403792794 * pow2 (- 4 - 52))"
    by (rule fl_normal [OF _ e _ m]) (simp_all add: pow2_def)
  then show ?thesis by (simp add: pow2_def)
qed

lemma fl_sum2:
  "fl (3602879701896397 / 36028797018963968 + 3602879701896397 / 18014398509481984)
     = Finite (1351079888211149 / 4503599627370496)"
proof -
  have e: "ilog2 (3602879701896397 / 36028797018963968 + 3602879701896397 / 18014398509481984) = - 2" by code_simp
  have m: "round_half_even ((3602879701896397 / 36028797018963968 + 3602879701896397 / 18014398509481984) / pow2 (- 2 - 52)) = 5404319552844596" by code_simp
  have "fl (3602879701896397 / 36028797018963968 + 3602879701896397 / 18014398509481984) = Finite (of_int 5404319552844596 * pow2 (- 2 - 52))"
    by (rule fl_normal [OF _ e _ m]) (simp_all add: pow2_def)
  then show ?thesis by (simp add: pow2_def)
qed

lemma fl_sum3:
  "fl (1351079888211149 / 4503599627370496 + 5404319552844595 / 18014398509481984)
     = Finite (1351079888211149 / 2251799813685248)"
proof -
  have e: "ilog2 (1351079888211149 / 4503599627370496 + 5404319552844595 / 18014398509481984) = - 1" by code_simp
  have m: "round_half_even ((1351079888211149 / 4503599627370496 + 5404319552844595 / 18014398509481984) / pow2 (- 1 - 52)) = 5404319552844596" by code_simp
  have "fl (1351079888211149 / 4503599627370496 + 5404319552844595 / 18014398509481984) = Finite (of_int 5404319552844596 * pow2 (- 1 - 52))"
    by (rule fl_normal [OF _ e _ m]) (simp_all add: pow2_def)
  then show ?thesis by (simp add: pow2_def)
qed

lemma fl_avg:
  "fl (1351079888211149 / 2251799813685248 / 3) = Finite (7205759403792795 / 36028797018963968)"
proof -
  have e: "ilog2 (1351079888211149 / 2251799813685248 / 3) = - 3" by code_simp
  have m: "round_half_even (1351079888211149 / 2251799813685248 / 3 / pow2 (- 3 - 52)) = 7205759403792795" by code_simp
  have "fl (1351079888211149 / 2251799813685248 / 3) = Finite (of_int 7205759403792795 * pow2 (- 3 - 52))"
    by (rule fl_normal [OF _ e _ m]) (simp_all add: pow2_def)
  then show ?thesis by (simp add: pow2_def)
qed

lemma fl_3: "fl 3 = Finite 3"
proof -
  have e: "ilog2 3 = 1" by code_simp
  have m: "round_half_even (3 / pow2 (1 - 52)) = 6755399441055744" by code_simp
  have "fl 3 = Finite (of_int 6755399441055744 * pow2 (1 - 52))"
    by (rule fl_normal [OF _ e _ m]) (simp_all add: pow2_def)
  then show ?thesis by (simp add: pow2_def)
qed

section \<open>Properties of the statistics\<close>

lemma float_of_int_0: "float_of_int 0 = Inr (Finite 0)"
  by (simp add: float_of_int_def fl_def)

lemma float_of_int_3: "float_of_int 3 = Inr (Finite 3)"
  by (simp add: float_of_int_def fl_3)

lemma draw_rounds_drawing: "draw_rounds drawing tw cps i rs = Inr ()"
  by (induction rs arbitrary: i) (auto simp: drawing_def)

lemma gen_graph_drawing: "gen_graph drawing st = Inr ()"
proof -
  have "subplots drawing (length (round_data st)) = Inr ()" by (simp add: drawing_def)
  then show ?thesis by (simp add: gen_graph_def draw_rounds_drawing)
qed

lemma graph_and_return_drawing: "graph_and_return drawing graph st = Inr st"
  by (simp add: graph_and_return_def gen_graph_drawing)

lemma graph_and_return_no_graph: "graph_and_return plt False st = Inr st"
  by (simp add: graph_and_return_def)

lemma tally_failed: "\<not> success d \<Longrightarrow> tally d v = Inr (v\<lparr> v_total_failed := v_total_failed v + 1 \<rparr>)"
  by (simp add: tally_def)

lemma tally_all_failed:
  "\<forall>d\<in>set ds. \<not> success d \<Longrightarrow>
     tally_all ds v = Inr (v\<lparr> v_total_failed := v_total_failed v + int (length ds) \<rparr>)"
  by (induction ds arbitrary: v) (simp_all add: tally_failed)

lemma round_summary_all_failed:
  assumes "\<forall>p\<in>set rd. \<not> success (snd p)"
  shows "round_summary rd =
           Inr \<lparr> avg_auth_time = PyInt 0, avg_conn_time = PyInt 0,
                 max_auth_time = PyInt 0, max_conn_time = PyInt 0,
                 min_auth_time = PyFloat PInf, min_conn_time = PyFloat PInf,
                 failed_conns = int (length rd), conn_data = rd \<rparr>"
proof -
  have "tally_all (map snd rd) round_vars_init =
          Inr (round_vars_init\<lparr> v_total_failed := int (length rd) \<rparr>)"
    using assms tally_all_failed [of "map snd rd" round_vars_init]
    by (simp add: round_vars_init_def)
  then show ?thesis
    by (simp add: round_summary_def round_vars_init_def averages_def)
qed

lemma rounds_loop_lookup:
  assumes "distinct (map fst pt)" and "\<forall>p\<in>set pt. \<exists>rs. round_summary (snd p) = Inr rs"
  shows "\<exists>out. rounds_loop pt acc = Inr out \<and>
           (\<forall>n. map_of out n =
              (case map_of pt n of
                 None \<Rightarrow> map_of acc n
               | Some rd \<Rightarrow> (case round_summary rd of Inl e \<Rightarrow> None | Inr rs \<Rightarrow> Some rs)))"
  using assms
proof (induction pt arbitrary: acc)
  case Nil
  then show ?case by simp
next
  case (Cons p pt)
  obtain name rd where p: "p = (name, rd)" by (cases p)
  from Cons.prems p obtain rs where rs: "round_summary rd = Inr rs" by auto
  from Cons.prems have d: "distinct (map fst pt)" and ok: "\<forall>p\<in>set pt. \<exists>rs. round_summary (snd p) = Inr rs"
    and fresh: "name \<notin> fst ` set pt" using p by auto
  from Cons.IH [OF d ok, of "AList.update name rs acc"]
  obtain out where out: "rounds_loop pt (AList.update name rs acc) = Inr out"
    and look: "\<And>n. map_of out n =
              (case map_of pt n of
                 None \<Rightarrow> map_of (AList.update name rs acc) n
               | Some rd \<Rightarrow> (case round_summary rd of Inl e \<Rightarrow> None | Inr rs \<Rightarrow> Some rs))"
    by blast
  have none: "map_of pt name = None" using fresh by (simp add: map_of_eq_None_iff)
  show ?case
  proof (intro exI conjI allI)
    show "rounds_loop (p # pt) acc = Inr out" using p rs out by simp
  next
    fix n
    show "map_of out n =
              (case map_of (p # pt) n of
                 None \<Rightarrow> map_of acc n
               | Some rd \<Rightarrow> (case round_summary rd of Inl e \<Rightarrow> None | Inr rs \<Rightarrow> Some rs))"
    proof (cases "n = name")
      case True
      then show ?thesis using look [of n] none p rs by (simp add: update_conv')
    next
      case False
      then show ?thesis using look [of n] p
        by (cases "map_of pt n") (simp_all add: update_conv')
    qed
  qed
qed

lemma calculate_stats_lookup:
  assumes "distinct (map fst pt)"
    and "\<forall>p\<in>set pt. \<exists>rs. round_summary (snd p) = Inr rs"
  shows "\<exists>st. calculate_stats plt pt conns rnds cps cw gw graph stype =
                graph_and_return plt graph st \<and>
           (\<forall>name rd rs. (name, rd) \<in> set pt \<longrightarrow> round_summary rd = Inr rs \<longrightarrow>
               map_of (round_data st) name = Some rs)"
proof -
  from rounds_loop_lookup [OF assms, of "[]"] obtain out where
    out: "rounds_loop pt [] = Inr out"
    and look: "\<forall>n. map_of out n =
              (case map_of pt n of
                 None \<Rightarrow> map_of [] n
               | Some rd \<Rightarrow> (case round_summary rd of Inl e \<Rightarrow> None | Inr rs \<Rightarrow> Some rs))"
    by blast
  show ?thesis
  proof (intro exI conjI allI impI)
    show "calculate_stats plt pt conns rnds cps cw gw graph stype =
            graph_and_return plt graph \<lparr> stress_type = stype, rounds = rnds, conns_per_round = conns,
               total_conns = conns * rnds, conns_per_sec = cps, conn_wait = cw,
               global_wait = gw, round_data = out \<rparr>"
      by (simp add: calculate_stats_def out)
  next
    fix name rd rs
    assume "(name, rd) \<in> set pt" "round_summary rd = Inr rs"
    then show "map_of (round_data \<lparr> stress_type = stype, rounds = rnds, conns_per_round = conns,
               total_conns = conns * rnds, conns_per_sec = cps, conn_wait = cw,
               global_wait = gw, round_data = out \<rparr>) name = Some rs"
      using look assms(1) by simp
  qed
qed

lemma fadd_step1:
  "fadd (Finite 0) (Finite (3602879701896397 / 36028797018963968))
     = Finite (3602879701896397 / 36028797018963968)"
  using fl_sum1 by simp

lemma fadd_step2:
  "fadd (Finite (3602879701896397 / 36028797018963968)) (Finite (3602879701896397 / 18014398509481984))
     = Finite (1351079888211149 / 4503599627370496)"
  unfolding fadd.simps by (rule fl_sum2)

lemma fadd_step3:
  "fadd (Finite (1351079888211149 / 4503599627370496)) (Finite (5404319552844595 / 18014398509481984))
     = Finite (1351079888211149 / 2251799813685248)"
  unfolding fadd.simps by (rule fl_sum3)

lemma fdiv_step:
  "fdiv (Finite (1351079888211149 / 2251799813685248)) 3 = Finite (7205759403792795 / 36028797018963968)"
  unfolding fdiv.simps by (rule fl_avg)

lemma summary_three_of_four:
  "\<exists>rs. round_summary
      [(1, \<lparr> conn_id = 1, success = True, auth_time = Some (fl (1 / 10)), conn_time = Some c1, results = r1 \<rparr>),
       (2, \<lparr> conn_id = 2, success = True, auth_time = Some (fl (1 / 5)), conn_time = Some c2, results = r2 \<rparr>),
       (3, \<lparr> conn_id = 3, success = False, auth_time = None, conn_time = None, results = r3 \<rparr>),
       (4, \<lparr> conn_id = 4, success = True, auth_time = Some (fl (3 / 10)), conn_time = Some c4, results = r4 \<rparr>)]
      = Inr rs \<and>
     avg_auth_time rs = PyFloat (Finite (7205759403792795 / 36028797018963968)) \<and>
     failed_conns rs = 1"
  by (simp add: round_summary_def tally_def round_vars_init_def averages_def
        float_of_int_0 float_of_int_3 fl_tenth fl_fifth fl_three_tenths
        fadd_step1 fadd_step2 fadd_step3 fdiv_step del: fadd.simps fdiv.simps)

text \<open>
  C1. A round without a successful outcome is summarised without an error: both averages
  are the int 0 (the \<^verbatim>\<open>ZeroDivisionError\<close> of \<^verbatim>\<open>0 / 0\<close> is caught) and
  \<^verbatim>\<open>failed_conns\<close> is the number of outcomes of the round. The other rounds of the same
  call are only asked to be summarised without an error themselves.
\<close>

theorem zero_success_round_averages:
  assumes "distinct (map fst pt)"
    and "(name, rd) \<in> set pt"
    and "\<forall>p\<in>set rd. \<not> success (snd p)"
    and "\<forall>q\<in>set pt. (\<exists>p\<in>set (snd q). success (snd p)) \<longrightarrow>
           (\<exists>rs. round_summary (snd q) = Inr rs)"
  shows "\<exists>st rs. calculate_stats plt pt conns rnds cps cw gw graph stype =
                   graph_and_return plt graph st \<and>
           map_of (round_data st) name = Some rs \<and>
           avg_auth_time rs = PyInt 0 \<and> avg_conn_time rs = PyInt 0 \<and>
           failed_conns rs = int (length rd)"
proof -
  have ok: "\<forall>q\<in>set pt. \<exists>rs. round_summary (snd q) = Inr rs"
  proof
    fix q assume q: "q \<in> set pt"
    show "\<exists>rs. round_summary (snd q) = Inr rs"
    proof (cases "\<exists>p\<in>set (snd q). success (snd p)")
      case True
      with assms(4) q show ?thesis by blast
    next
      case False
      then show ?thesis using round_summary_all_failed [of "snd q"] by blast
    qed
  qed
  from calculate_stats_lookup [OF assms(1) ok, of plt conns rnds cps cw gw graph stype]
  obtain st where st: "calculate_stats plt pt conns rnds cps cw gw graph stype =
                         graph_and_return plt graph st"
    and look: "\<forall>name rd rs. (name, rd) \<in> set pt \<longrightarrow> round_summary rd = Inr rs \<longrightarrow>
               map_of (round_data st) name = Some rs"
    by blast
  from look assms(2) round_summary_all_failed [OF assms(3)]
  have "map_of (round_data st) name =
          Some \<lparr> avg_auth_time = PyInt 0, avg_conn_time = PyInt 0,
                 max_auth_time = PyInt 0, max_conn_time = PyInt 0,
                 min_auth_time = PyFloat PInf, min_conn_time = PyFloat PInf,
                 failed_conns = int (length rd), conn_data = rd \<rparr>"
    by blast
  with st show ?thesis by auto
qed

theorem zero_success_round_averages_witness:
  "\<exists>st rs. calculate_stats drawing
       [(''round_1'',
          [(1, \<lparr> conn_id = 1, success = False, auth_time = None, conn_time = None,
                 results = ErrorText ''Connection refused'' \<rparr>),
           (2, \<lparr> conn_id = 2, success = False, auth_time = None, conn_time = None,
                 results = ErrorText ''Connection refused'' \<rparr>)]),
        (''round_2'',
          [(1, \<lparr> conn_id = 1, success = True, auth_time = Some (fl (1 / 10)),
                 conn_time = Some (Finite 1), results = Listing [] \<rparr>),
           (2, \<lparr> conn_id = 2, success = True, auth_time = Some (fl (1 / 5)),
                 conn_time = Some (Finite 1), results = Listing [] \<rparr>),
           (3, \<lparr> conn_id = 3, success = False, auth_time = None, conn_time = None,
                 results = ErrorText ''Connection lost'' \<rparr>),
           (4, \<lparr> conn_id = 4, success = True, auth_time = Some (fl (3 / 10)),
                 conn_time = Some (Finite 1), results = Listing [] \<rparr>)])]
       2 2 (PyInt 100) 0 0 True ''SFTP'' = Inr st \<and>
     map_of (round_data st) ''round_1'' = Some rs \<and>
     avg_auth_time rs = PyInt 0 \<and> avg_conn_time rs = PyInt 0 \<and> failed_conns rs = 2"
proof -
  let ?r1 = "[(1::int, \<lparr> conn_id = 1, success = False, auth_time = None, conn_time = None,
                 results = ErrorText ''Connection refused'' \<rparr>),
           (2, \<lparr> conn_id = 2, success = False, auth_time = None, conn_time = None,
                 results = ErrorText ''Connection refused'' \<rparr>)]"
  let ?r2 = "[(1::int, \<lparr> conn_id = 1, success = True, auth_time = Some (fl (1 / 10)),
                 conn_time = Some (Finite 1), results = Listing [] \<rparr>),
           (2, \<lparr> conn_id = 2, success = True, auth_time = Some (fl (1 / 5)),
                 conn_time = Some (Finite 1), results = Listing [] \<rparr>),
           (3, \<lparr> conn_id = 3, success = False, auth_time = None, conn_time = None,
                 results = ErrorText ''Connection lost'' \<rparr>),
           (4, \<lparr> conn_id = 4, success = True, auth_time = Some (fl (3 / 10)),
                 conn_time = Some (Finite 1), results = Listing [] \<rparr>)]"
  have r2: "\<exists>rs. round_summary ?r2 = Inr rs"
    using summary_three_of_four [of "Finite 1" "Listing []" "Finite 1" "Listing []"
        "ErrorText ''Connection lost''" "Finite 1" "Listing []"] by blast
  have "\<exists>st rs. calculate_stats drawing [(''round_1'', ?r1), (''round_2'', ?r2)]
           2 2 (PyInt 100) 0 0 True ''SFTP'' = graph_and_return drawing True st \<and>
           map_of (round_data st) ''round_1'' = Some rs \<and>
           avg_auth_time rs = PyInt 0 \<and> avg_conn_time rs = PyInt 0 \<and>
           failed_conns rs = int (length ?r1)"
    by (rule zero_success_round_averages) (use r2 in simp_all)
  then show ?thesis by (simp add: graph_and_return_drawing)
qed

text \<open>
  C2. In a round without a successful outcome both minima keep the value
  \<^verbatim>\<open>float('inf')\<close> they start with, which is not equal to 0, and both maxima keep the
  int 0.
\<close>

theorem zero_success_round_extrema:
  assumes "distinct (map fst pt)"
    and "(name, rd) \<in> set pt"
    and "\<forall>p\<in>set rd. \<not> success (snd p)"
    and "\<forall>q\<in>set pt. (\<exists>p\<in>set (snd q). success (snd p)) \<longrightarrow>
           (\<exists>rs. round_summary (snd q) = Inr rs)"
  shows "\<exists>st rs. calculate_stats plt pt conns rnds cps cw gw graph stype =
                   graph_and_return plt graph st \<and>
           map_of (round_data st) name = Some rs \<and>
           min_auth_time rs = PyFloat PInf \<and> min_conn_time rs = PyFloat PInf \<and>
           \<not> py_eq (min_auth_time rs) (PyInt 0) \<and> \<not> py_eq (min_conn_time rs) (PyInt 0) \<and>
           max_auth_time rs = PyInt 0 \<and> max_conn_time rs = PyInt 0"
proof -
  have ok: "\<forall>q\<in>set pt. \<exists>rs. round_summary (snd q) = Inr rs"
  proof
    fix q assume q: "q \<in> set pt"
    show "\<exists>rs. round_summary (snd q) = Inr rs"
    proof (cases "\<exists>p\<in>set (snd q). success (snd p)")
      case True
      with assms(4) q show ?thesis by blast
    next
      case False
      then show ?thesis using round_summary_all_failed [of "snd q"] by blast
    qed
  qed
  from calculate_stats_lookup [OF assms(1) ok, of plt conns rnds cps cw gw graph stype]
  obtain st where st: "calculate_stats plt pt conns rnds cps cw gw graph stype =
                         graph_and_return plt graph st"
    and look: "\<forall>name rd rs. (name, rd) \<in> set pt \<longrightarrow> round_summary rd = Inr rs \<longrightarrow>
               map_of (round_data st) name = Some rs"
    by blast
  from look assms(2) round_summary_all_failed [OF assms(3)]
  have "map_of (round_data st) name =
          Some \<lparr> avg_auth_time = PyInt 0, avg_conn_time = PyInt 0,
                 max_auth_time = PyInt 0, max_conn_time = PyInt 0,
                 min_auth_time = PyFloat PInf, min_conn_time = PyFloat PInf,
                 failed_conns = int (length rd), conn_data = rd \<rparr>"
    by blast
  with st show ?thesis by auto
qed

theorem zero_success_round_extrema_witness:
  "\<exists>st rs. calculate_stats drawing
       [(''round_1'',
          [(1, \<lparr> conn_id = 1, success = True, auth_time = Some (fl (1 / 10)),
                 conn_time = Some (Finite 1), results = Completed ''ok'' \<rparr>),
           (2, \<lparr> conn_id = 2, success = True, auth_time = Some (fl (1 / 5)),
                 conn_time = Some (Finite 1), results = Completed ''ok'' \<rparr>),
           (3, \<lparr> conn_id = 3, success = False, auth_time = None, conn_time = None,
                 results = ErrorText ''Connection lost'' \<rparr>),
           (4, \<lparr> conn_id = 4, success = True, auth_time = Some (fl (3 / 10)),
                 conn_time = Some (Finite 1), results = Completed ''ok'' \<rparr>)]),
        (''round_2'',
          [(1, \<lparr> conn_id = 1, success = False, auth_time = None, conn_time = None,
                 results = ErrorText ''Permission denied'' \<rparr>)])]
       4 2 (PyInt 100) 0 0 True ''SSH'' = Inr st \<and>
     map_of (round_data st) ''round_2'' = Some rs \<and>
     min_auth_time rs = PyFloat PInf \<and> min_conn_time rs = PyFloat PInf \<and>
     \<not> py_eq (min_auth_time rs) (PyInt 0) \<and> \<not> py_eq (min_conn_time rs) (PyInt 0) \<and>
     max_auth_time rs = PyInt 0 \<and> max_conn_time rs = PyInt 0"
proof -
  let ?r1 = "[(1::int, \<lparr> conn_id = 1, success = True, auth_time = Some (fl (1 / 10)),
                 conn_time = Some (Finite 1), results = Completed ''ok'' \<rparr>),
           (2, \<lparr> conn_id = 2, success = True, auth_time = Some (fl (1 / 5)),
                 conn_time = Some (Finite 1), results = Completed ''ok'' \<rparr>),
           (3, \<lparr> conn_id = 3, success = False, auth_time = None, conn_time = None,
                 results = ErrorText ''Connection lost'' \<rparr>),
           (4, \<lparr> conn_id = 4, success = True, auth_time = Some (fl (3 / 10)),
                 conn_time = Some (Finite 1), results = Completed ''ok'' \<rparr>)]"
  have r1: "\<exists>rs. round_summary ?r1 = Inr rs"
    using summary_three_of_four [of "Finite 1" "Completed ''ok''" "Finite 1" "Completed ''ok''"
        "ErrorText ''Connection lost''" "Finite 1" "Completed ''ok''"] by blast
  let ?r2 = "[(1::int, \<lparr> conn_id = 1, success = False, auth_time = None,
                 conn_time = None, results = ErrorText ''Permission denied'' \<rparr>)]"
  have "\<exists>st rs. calculate_stats drawing [(''round_1'', ?r1), (''round_2'', ?r2)]
           4 2 (PyInt 100) 0 0 True ''SSH'' = graph_and_return drawing True st \<and>
           map_of (round_data st) ''round_2'' = Some rs \<and>
           min_auth_time rs = PyFloat PInf \<and> min_conn_time rs = PyFloat PInf \<and>
           \<not> py_eq (min_auth_time rs) (PyInt 0) \<and> \<not> py_eq (min_conn_time rs) (PyInt 0) \<and>
           max_auth_time rs = PyInt 0 \<and> max_conn_time rs = PyInt 0"
    by (rule zero_success_round_extrema [where rd = ?r2]) (use r1 in simp_all)
  then show ?thesis by (simp add: graph_and_return_drawing)
qed

text \<open>
  C7, as stated. With outcome 3 failed and outcomes 1, 2 and 4 successful with the auth
  times 0.1, 0.2 and 0.3, the average that the code computes is not equal to the float 0.2:
  the sum \<^verbatim>\<open>0 + 0.1 + 0.2 + 0.3\<close> is 0.6000000000000001 in binary64, and a third of it
  is 0.20000000000000004.
\<close>

theorem avg_three_of_four_counterexample:
  "\<not> (case round_summary
        [(1, \<lparr> conn_id = 1, success = True, auth_time = Some (fl (1 / 10)),
               conn_time = Some (Finite 1), results = Listing [] \<rparr>),
         (2, \<lparr> conn_id = 2, success = True, auth_time = Some (fl (1 / 5)),
               conn_time = Some (Finite 1), results = Listing [] \<rparr>),
         (3, \<lparr> conn_id = 3, success = False, auth_time = None, conn_time = None,
               results = ErrorText ''Connection lost'' \<rparr>),
         (4, \<lparr> conn_id = 4, success = True, auth_time = Some (fl (3 / 10)),
               conn_time = Some (Finite 1), results = Listing [] \<rparr>)] of
        Inl e \<Rightarrow> False
      | Inr rs \<Rightarrow> py_eq (avg_auth_time rs) (PyFloat (fl (1 / 5))) \<and> failed_conns rs = 1)"
  using summary_three_of_four [of "Finite 1" "Listing []" "Finite 1" "Listing []"
        "ErrorText ''Connection lost''" "Finite 1" "Listing []"]
  by (auto simp add: fl_fifth)

text \<open>
  C7, amended. On that round, whatever the connection times and the payloads are,
  \<^verbatim>\<open>avg_auth_time\<close> is the float 0.20000000000000004, that is
  \<open>7205759403792795 / 2^55\<close>, the binary64 value next above 0.2 (which is
  \<open>7205759403792794 / 2^55\<close>), and \<^verbatim>\<open>failed_conns\<close> is 1.
\<close>

theorem avg_three_of_four:
  "\<exists>rs. round_summary
      [(1, \<lparr> conn_id = 1, success = True, auth_time = Some (fl (1 / 10)), conn_time = Some c1, results = r1 \<rparr>),
       (2, \<lparr> conn_id = 2, success = True, auth_time = Some (fl (1 / 5)), conn_time = Some c2, results = r2 \<rparr>),
       (3, \<lparr> conn_id = 3, success = False, auth_time = None, conn_time = None, results = r3 \<rparr>),
       (4, \<lparr> conn_id = 4, success = True, auth_time = Some (fl (3 / 10)), conn_time = Some c4, results = r4 \<rparr>)]
      = Inr rs \<and>
     avg_auth_time rs = PyFloat (Finite (7205759403792795 / 2 ^ 55)) \<and>
     fl (1 / 5) = Finite (7205759403792794 / 2 ^ 55) \<and>
     failed_conns rs = 1"
  using summary_three_of_four [of c1 r1 c2 r2 r3 c4 r4] by (simp add: fl_fifth)

section \<open>Properties of the scheduler loop\<close>

lemma hammer_step_bound:
  assumes "hammer_step conns maxc users run p s p' s'"
    and "int (length (tasks s)) \<le> maxc"
  shows "int (length (tasks s')) \<le> maxc"
  using assms
proof (induction rule: hammer_step.induct)
  case (head_reap s dn pt)
  have "int (length (filter (\<lambda>t. t \<notin> set dn) (tasks s))) \<le> int (length (tasks s))" by simp
  also have "\<dots> \<le> maxc" using head_reap by simp
  finally show ?case by simp
next
  case (head_raise s dn e)
  have "int (length (filter (\<lambda>t. t \<notin> set dn) (tasks s))) \<le> int (length (tasks s))" by simp
  also have "\<dots> \<le> maxc" using head_raise by simp
  finally show ?case by simp
qed simp_all

lemma hammer_reach_bound:
  assumes "hammer_reach conns maxc users run cps pos p s" and "0 \<le> maxc"
  shows "int (length (tasks s)) \<le> maxc"
  using assms
proof (induction rule: hammer_reach.induct)
  case (step p s p' s')
  then show ?case using hammer_step_bound by blast
qed (simp_all add: hammer_init_def)

lemma reap_keys:
  assumes "reap (map run dn) pt = Inr pt'"
    and "\<And>t cs. run t = Inr cs \<Longrightarrow> conn_id cs = fst t"
  shows "fst ` set pt' = fst ` set pt \<union> fst ` set dn"
  using assms(1)
proof (induction dn arbitrary: pt)
  case Nil
  then show ?case by simp
next
  case (Cons t dn)
  show ?case
  proof (cases "run t")
    case (Inl e)
    with Cons.prems show ?thesis by simp
  next
    case (Inr cs)
    with Cons.prems have "reap (map run dn) (AList.update (conn_id cs) cs pt) = Inr pt'" by simp
    from Cons.IH [OF this] assms(2) [OF Inr] show ?thesis by (auto simp: dom_update)
  qed
qed

lemma reap_distinct:
  assumes "reap rs pt = Inr pt'" and "distinct (map fst pt)"
  shows "distinct (map fst pt')"
  using assms
proof (induction rs pt rule: reap.induct)
  case (3 res rs pt)
  then show ?case by (simp add: distinct_update)
qed simp_all

lemma list_all_update:
  "list_all P al \<Longrightarrow> P (k, v) \<Longrightarrow> list_all P (AList.update k v al)"
  by (induction al) auto

lemma reap_ids:
  assumes "reap rs pt = Inr pt'" and "list_all (\<lambda>p. conn_id (snd p) = fst p) pt"
  shows "list_all (\<lambda>p. conn_id (snd p) = fst p) pt'"
  using assms
proof (induction rs pt rule: reap.induct)
  case (3 res rs pt)
  then show ?case by (simp add: list_all_update)
qed simp_all

lemma ids_inv_reap:
  assumes inv: "ids_inv conns pos users s"
    and dn: "set dn \<subseteq> set (tasks s)"
    and rp: "reap (map run dn) (perf_times s) = Inr pt"
    and run_id: "\<And>t cs. run t = Inr cs \<Longrightarrow> conn_id cs = fst t"
  shows "ids_inv conns pos users (s\<lparr> tasks := filter (\<lambda>t. t \<notin> set dn) (tasks s), perf_times := pt \<rparr>)"
proof -
  let ?rest = "filter (\<lambda>t. t \<notin> set dn) (tasks s)"
  from inv have dt: "distinct (map fst (tasks s))"
    and dp: "distinct (map fst (perf_times s))"
    and un: "fst ` set (tasks s) \<union> fst ` set (perf_times s) = {1..count s}"
    and it: "fst ` set (tasks s) \<inter> fst ` set (perf_times s) = {}"
    and la: "list_all (\<lambda>p. conn_id (snd p) = fst p) (perf_times s)"
    by (simp_all add: ids_inv_def)
  from dt have inj: "inj_on fst (set (tasks s))" by (simp add: distinct_map)
  have keys: "fst ` set pt = fst ` set (perf_times s) \<union> fst ` set dn"
    using reap_keys [OF rp run_id] by simp
  have split: "set (tasks s) = set ?rest \<union> set dn" using dn by auto
  have disj: "fst ` set ?rest \<inter> fst ` set dn = {}"
  proof -
    have "set ?rest \<inter> set dn = {}" by auto
    moreover have "set ?rest \<subseteq> set (tasks s)" by auto
    ultimately show ?thesis using inj dn by (auto simp: inj_on_def)
  qed
  have u: "fst ` set ?rest \<union> fst ` set pt = {1..count s}"
  proof -
    have "fst ` set ?rest \<union> fst ` set pt = fst ` (set ?rest \<union> set dn) \<union> fst ` set (perf_times s)"
      unfolding keys by (simp add: image_Un Un_ac)
    also have "\<dots> = fst ` set (tasks s) \<union> fst ` set (perf_times s)" using split by simp
    finally show ?thesis using un by simp
  qed
  have i: "fst ` set ?rest \<inter> fst ` set pt = {}"
  proof -
    have "fst ` set ?rest \<subseteq> fst ` set (tasks s)" by auto
    with it have "fst ` set ?rest \<inter> fst ` set (perf_times s) = {}" by blast
    with disj show ?thesis unfolding keys by blast
  qed
  have d1: "distinct (map fst ?rest)" using dt by (simp add: distinct_map_filter)
  have d2: "distinct (map fst pt)" using reap_distinct [OF rp dp] .
  have ids: "list_all (\<lambda>p. conn_id (snd p) = fst p) pt" using reap_ids [OF rp la] .
  from inv have rest: "0 \<le> count s" "count s \<le> conns \<or> count s = 0"
    "map fst (launched s) = [1..count s]" "user s = pos + length (launched s)"
    "map snd (launched s) = map (\<lambda>j. next_user users (pos + j)) [0..<length (launched s)]"
    by (simp_all add: ids_inv_def)
  show ?thesis
    unfolding ids_inv_def using rest u i d1 d2 ids by simp
qed

lemma ids_inv_launch:
  assumes inv: "ids_inv conns pos users s" and lt: "count s < conns"
    and t: "t = (count s + 1, next_user users (user s))"
  shows "ids_inv conns pos users
           (s\<lparr> count := count s + 1, tasks := tasks s @ [t], user := user s + 1,
               launched := launched s @ [t] \<rparr>)"
proof -
  let ?c = "count s + 1"
  from inv have c0: "0 \<le> count s"
    and lm: "map fst (launched s) = [1..count s]"
    and dt: "distinct (map fst (tasks s))"
    and dp: "distinct (map fst (perf_times s))"
    and un: "fst ` set (tasks s) \<union> fst ` set (perf_times s) = {1..count s}"
    and it: "fst ` set (tasks s) \<inter> fst ` set (perf_times s) = {}"
    and la: "list_all (\<lambda>p. conn_id (snd p) = fst p) (perf_times s)"
    and us: "user s = pos + length (launched s)"
    and ls: "map snd (launched s) = map (\<lambda>j. next_user users (pos + j)) [0..<length (launched s)]"
    by (simp_all add: ids_inv_def)
  have ft: "fst t = ?c" and st: "snd t = next_user users (pos + length (launched s))"
    using t us by simp_all
  have sub1: "fst ` set (tasks s) \<subseteq> {1..count s}" and sub2: "fst ` set (perf_times s) \<subseteq> {1..count s}"
    using un by blast+
  have fresh: "?c \<notin> fst ` set (tasks s)" using sub1 by auto
  have nk: "?c \<notin> fst ` set (perf_times s)" using sub2 by auto
  have up: "[1..?c] = [1..count s] @ [?c]" using c0 by (simp add: upto_rec2)
  have s1: "{1..?c} = insert ?c {1..count s}" using c0 by auto
  have c1: "0 \<le> ?c \<and> (?c \<le> conns \<or> ?c = 0)" using c0 lt by simp
  have c2: "map fst (launched s @ [t]) = [1..?c]" using lm up ft by simp
  have c3: "distinct (map fst (tasks s @ [t]))" using dt fresh ft by simp
  have c4: "fst ` set (tasks s @ [t]) \<union> fst ` set (perf_times s) = {1..?c}"
    using un s1 ft by auto
  have c5: "fst ` set (tasks s @ [t]) \<inter> fst ` set (perf_times s) = {}"
    using it nk ft by auto
  have c6: "user s + 1 = pos + length (launched s @ [t])" using us by simp
  have c7: "map snd (launched s @ [t]) =
              map (\<lambda>j. next_user users (pos + j)) [0..<length (launched s @ [t])]"
    using ls st by simp
  show ?thesis
    unfolding ids_inv_def using c1 c2 c3 c4 c5 c6 c7 dp la by simp
qed

lemma hammer_step_ids:
  assumes "hammer_step conns maxc users run p s p' s'"
    and "\<And>t cs. run t = Inr cs \<Longrightarrow> conn_id cs = fst t"
    and "ids_inv conns pos users s"
  shows "(\<exists>e. p' = Raised e) \<or> ids_inv conns pos users s'"
  using assms
proof (induction rule: hammer_step.induct)
  case (head_reap s dn pt)
  then show ?case using ids_inv_reap by blast
next
  case (refill_launch s t)
  then show ?case using ids_inv_launch by blast
qed simp_all

lemma hammer_step_from_raised:
  "hammer_step conns maxc users run p s p' s' \<Longrightarrow> p \<noteq> Raised e"
  by (induction rule: hammer_step.induct) simp_all

lemma hammer_reach_ids:
  assumes "hammer_reach conns maxc users run cps pos p s"
    and "\<And>t cs. run t = Inr cs \<Longrightarrow> conn_id cs = fst t"
  shows "(\<exists>e. p = Raised e) \<or> ids_inv conns pos users s"
  using assms
proof (induction rule: hammer_reach.induct)
  case enter
  show ?case by (simp add: ids_inv_def hammer_init_def)
next
  case enter_raise
  show ?case by simp
next
  case (step p s p' s')
  from step.hyps(2) have "\<not> (\<exists>e. p = Raised e)" using hammer_step_from_raised by blast
  with step have "ids_inv conns pos users s" by blast
  from hammer_step_ids [OF step.hyps(2) step.prems this] show ?case .
qed

lemma except_clause_id: "except_clause c e = Inr cs \<Longrightarrow> conn_id cs = c"
  by (auto simp: except_clause_def split: if_splits)

lemma sftp_id: "sftp wait c usr cw ls w = Inr cs \<Longrightarrow> conn_id cs = c"
  by (auto simp: sftp_def split: outcome.splits dest: except_clause_id)

lemma ssh_id: "ssh wait c usr cw w = Inr cs \<Longrightarrow> conn_id cs = c"
  by (auto simp: ssh_def split: outcome.splits dest: except_clause_id)

lemma attempt_id: "attempt is_sftp wait cw ls env t = Inr cs \<Longrightarrow> conn_id cs = fst t"
  by (auto simp: attempt_def split: if_splits dest: sftp_id ssh_id)

lemma hammer_step_returned:
  "hammer_step conns maxc users run p s p' s' \<Longrightarrow> p' = Returned \<Longrightarrow>
     \<not> count s' < conns \<and> tasks s' = []"
  by (induction rule: hammer_step.induct) simp_all

lemma hammer_reach_returned:
  assumes "hammer_reach conns maxc users run cps pos Returned s"
  shows "\<not> count s < conns \<and> tasks s = []"
  using assms
proof (cases rule: hammer_reach.cases)
  case (step p s0)
  then show ?thesis using hammer_step_returned by blast
qed

lemma hammer_returned_ids:
  assumes r: "hammer_reach conns maxc users run cps pos Returned s"
    and run_id: "\<And>t cs. run t = Inr cs \<Longrightarrow> conn_id cs = fst t"
  shows "length (perf_times s) = nat conns \<and> distinct (map fst (perf_times s)) \<and>
         set (map fst (perf_times s)) = {1..conns} \<and>
         list_all (\<lambda>p. conn_id (snd p) = fst p) (perf_times s) \<and>
         map fst (launched s) = [1..conns] \<and>
         user s = pos + nat conns \<and>
         map snd (launched s) = map (\<lambda>j. next_user users (pos + j)) [0..<nat conns]"
proof -
  from hammer_reach_ids [OF r run_id] have inv: "ids_inv conns pos users s" by simp
  from hammer_reach_returned [OF r] have ge: "conns \<le> count s" and nt: "tasks s = []" by simp_all
  from inv have c0: "0 \<le> count s" and cc: "count s \<le> conns \<or> count s = 0"
    and lm: "map fst (launched s) = [1..count s]"
    and dp: "distinct (map fst (perf_times s))"
    and un: "fst ` set (tasks s) \<union> fst ` set (perf_times s) = {1..count s}"
    and la: "list_all (\<lambda>p. conn_id (snd p) = fst p) (perf_times s)"
    and us: "user s = pos + length (launched s)"
    and ls: "map snd (launched s) = map (\<lambda>j. next_user users (pos + j)) [0..<length (launched s)]"
    by (simp_all add: ids_inv_def)
  have lists: "[1..count s] = [1..conns]"
  proof (cases "count s = conns")
    case True
    then show ?thesis by simp
  next
    case False
    with ge cc have "count s = 0" and "conns < 1" by simp_all
    then show ?thesis by simp
  qed
  then have sets: "{1..count s} = {1..conns}" by (metis set_upto)
  have keys: "set (map fst (perf_times s)) = {1..conns}" using un nt sets by simp
  have "length (perf_times s) = card (set (map fst (perf_times s)))"
    using distinct_card [OF dp] by simp
  then have len: "length (perf_times s) = nat conns" unfolding keys by simp
  have ll: "length (launched s) = nat conns"
  proof -
    have "length (launched s) = length (map fst (launched s))" by simp
    also have "\<dots> = nat conns" unfolding lm lists by simp
    finally show ?thesis .
  qed
  from len dp keys la lm lists us ls ll show ?thesis by simp
qed



text \<open>A run of the loop for two connections, one at a time, both refused.\<close>

lemma attempt_refused:
  "attempt is_sftp wait cw ls (\<lambda>i. refused) (c, u) = Inr (refused_stat c)"
  by (simp add: attempt_def sftp_def ssh_def refused_def except_clause_def refused_stat_def)

lemma example_run:
  assumes "U \<noteq> []" and "u1 = next_user U pos" and "u2 = next_user U (pos + 1)"
    and "pos2 = pos + 2"
  shows "hammer_reach 2 1 U (attempt is_sftp wait cw ls (\<lambda>i. refused)) (PyInt 100) pos
     Returned
     \<lparr> count = 2, tasks = [], perf_times = [(1, refused_stat 1), (2, refused_stat 2)],
       user = pos2, launched = [(1, u1), (2, u2)] \<rparr>"
proof -
  let ?run = "attempt is_sftp wait cw ls (\<lambda>i. refused)"
  let ?t1 = "(1::int, u1)"
  let ?t2 = "(2::int, u2)"
  let ?a = "\<lparr> count = 0, tasks = [], perf_times = [], user = pos, launched = [] \<rparr>"
  let ?b = "\<lparr> count = 1, tasks = [?t1], perf_times = [], user = pos + 1, launched = [?t1] \<rparr>"
  let ?c = "\<lparr> count = 1, tasks = [], perf_times = [(1, refused_stat 1)], user = pos + 1,
              launched = [?t1] \<rparr>"
  let ?d = "\<lparr> count = 2, tasks = [?t2], perf_times = [(1, refused_stat 1)], user = pos2,
              launched = [?t1, ?t2] \<rparr>"
  let ?e = "\<lparr> count = 2, tasks = [], perf_times = [(1, refused_stat 1), (2, refused_stat 2)],
              user = pos2, launched = [?t1, ?t2] \<rparr>"
  let ?R = "hammer_reach 2 1 U ?run (PyInt 100) pos"
  let ?S = "hammer_step 2 1 U ?run"
  have r0: "?R LoopHead ?a"
    using hammer_reach.enter [of "PyInt 100" 2 1 U ?run pos] by (simp add: hammer_init_def)
  have "?S LoopHead ?a Refill ?a" by (rule hammer_step.head_skip) simp_all
  with r0 have r1: "?R Refill ?a" by (rule hammer_reach.step)
  have "?S Refill ?a Refill ?b"
    using hammer_step.refill_launch [of ?a 2 1 U ?t1 ?run] assms by simp
  with r1 have r2: "?R Refill ?b" by (rule hammer_reach.step)
  have "?S Refill ?b LoopHead ?b" by (rule hammer_step.refill_done) simp
  with r2 have r3: "?R LoopHead ?b" by (rule hammer_reach.step)
  have "?S LoopHead ?b Refill ?c"
    using hammer_step.head_reap [of ?b 2 "[?t1]" ?run "[(1, refused_stat 1)]" 1 U]
    by (simp add: attempt_refused refused_stat_def)
  with r3 have r4: "?R Refill ?c" by (rule hammer_reach.step)
  have "?S Refill ?c Refill ?d"
    using hammer_step.refill_launch [of ?c 2 1 U ?t2 ?run] assms by simp
  with r4 have r5: "?R Refill ?d" by (rule hammer_reach.step)
  have "?S Refill ?d LoopHead ?d" by (rule hammer_step.refill_done) simp
  with r5 have r6: "?R LoopHead ?d" by (rule hammer_reach.step)
  have "?S LoopHead ?d Refill ?e"
    using hammer_step.head_reap [of ?d 2 "[?t2]" ?run "[(1, refused_stat 1), (2, refused_stat 2)]" 1 U]
    by (simp add: attempt_refused refused_stat_def)
  with r6 have r7: "?R Refill ?e" by (rule hammer_reach.step)
  have "?S Refill ?e LoopHead ?e" by (rule hammer_step.refill_done) simp
  with r7 have r8: "?R LoopHead ?e" by (rule hammer_reach.step)
  have "?S LoopHead ?e Returned ?e" by (rule hammer_step.head_exit) simp
  with r8 show ?thesis by (rule hammer_reach.step)
qed

lemma example_run_mid:
  "hammer_reach 2 1 [''root'', ''admin''] (attempt is_sftp wait cw ls (\<lambda>i. refused)) (PyInt 100) pos
     LoopHead
     \<lparr> count = 1, tasks = [(1, next_user [''root'', ''admin''] pos)], perf_times = [],
       user = pos + 1, launched = [(1, next_user [''root'', ''admin''] pos)] \<rparr>"
proof -
  let ?U = "[''root'', ''admin'']"
  let ?run = "attempt is_sftp wait cw ls (\<lambda>i. refused)"
  let ?t1 = "(1::int, next_user ?U pos)"
  let ?a = "\<lparr> count = 0, tasks = [], perf_times = [], user = pos, launched = [] \<rparr>"
  let ?b = "\<lparr> count = 1, tasks = [?t1], perf_times = [], user = pos + 1, launched = [?t1] \<rparr>"
  let ?R = "hammer_reach 2 1 ?U ?run (PyInt 100) pos"
  let ?S = "hammer_step 2 1 ?U ?run"
  have r0: "?R LoopHead ?a"
    using hammer_reach.enter [of "PyInt 100" 2 1 ?U ?run pos] by (simp add: hammer_init_def)
  have "?S LoopHead ?a Refill ?a" by (rule hammer_step.head_skip) simp_all
  with r0 have r1: "?R Refill ?a" by (rule hammer_reach.step)
  have "?S Refill ?a Refill ?b"
    using hammer_step.refill_launch [of ?a 2 1 ?U ?t1 ?run] by simp
  with r1 have r2: "?R Refill ?b" by (rule hammer_reach.step)
  have "?S Refill ?b LoopHead ?b" by (rule hammer_step.refill_done) simp
  with r2 show ?thesis by (rule hammer_reach.step)
qed

text \<open>
  C3. For any \<^verbatim>\<open>conns\<close> and any \<^verbatim>\<open>max_concurrent_tasks\<close> that is not negative (the
  specification asks for at least 1, the command line always runs with 10000), at every
  point of the loop of \<^verbatim>\<open>_hammer\<close> the set \<^verbatim>\<open>tasks\<close> holds at most
  \<^verbatim>\<open>max_concurrent_tasks\<close> tasks. The attempts that are launched and not yet completed are
  among them.
\<close>

theorem hammer_ceiling:
  assumes "hammer self pending conns cw gw cps is_sftp sftp_ls env pos p s"
    and "0 \<le> max_concurrent_tasks self"
  shows "int (length (tasks s)) \<le> max_concurrent_tasks self"
  using assms by (simp add: hammer_def hammer_reach_bound)

theorem hammer_ceiling_witness:
  "hammer \<lparr> target_users = [''root'', ''admin''], max_concurrent_tasks = 1 \<rparr> [] 2 0 0 (PyInt 100)
     True ''/'' (\<lambda>i. refused) 0 LoopHead
     \<lparr> count = 1, tasks = [(1, ''root'')], perf_times = [], user = 1, launched = [(1, ''root'')] \<rparr> \<and>
   0 \<le> max_concurrent_tasks \<lparr> target_users = [''root'', ''admin''], max_concurrent_tasks = 1 \<rparr> \<and>
   int (length (tasks \<lparr> count = 1, tasks = [(1, ''root'')], perf_times = [], user = 1,
                        launched = [(1, ''root'')] \<rparr>))
     \<le> max_concurrent_tasks \<lparr> target_users = [''root'', ''admin''], max_concurrent_tasks = 1 \<rparr>"
proof -
  let ?self = "\<lparr> target_users = [''root'', ''admin''], max_concurrent_tasks = 1 \<rparr>"
  let ?b = "\<lparr> count = 1, tasks = [(1::int, ''root'')], perf_times = [], user = 1,
              launched = [(1::int, ''root'')] \<rparr>"
  have r: "hammer ?self [] 2 0 0 (PyInt 100) True ''/'' (\<lambda>i. refused) 0 LoopHead ?b"
    using example_run_mid [of True "wait_flag 0 []" 0 "''/''" 0]
    by (simp add: hammer_def next_user_def)
  have m: "0 \<le> max_concurrent_tasks ?self" by simp
  from r m hammer_ceiling [OF r m] show ?thesis by simp
qed

text \<open>
  C4. When \<^verbatim>\<open>_hammer\<close> returns, \<^verbatim>\<open>perf_times\<close> has exactly \<^verbatim>\<open>conns\<close> entries (none for a
  negative \<^verbatim>\<open>conns\<close>), its keys are the ids \<open>1..conns\<close> without a duplicate, each entry is
  stored under its own \<^verbatim>\<open>id\<close>, and the ids were given out at launch as \<open>1, 2, \<dots>, conns\<close> in
  this order. This holds for every \<^verbatim>\<open>max_concurrent_tasks\<close> with which the call returns.
\<close>

theorem hammer_outcome_ids:
  assumes "hammer self pending conns cw gw cps is_sftp sftp_ls env pos Returned s"
  shows "length (perf_times s) = nat conns \<and> distinct (map fst (perf_times s)) \<and>
         set (map fst (perf_times s)) = {1..conns} \<and>
         list_all (\<lambda>p. conn_id (snd p) = fst p) (perf_times s) \<and>
         map fst (launched s) = [1..conns]"
  using hammer_returned_ids [OF assms [unfolded hammer_def] attempt_id] by simp

theorem hammer_outcome_ids_witness:
  "hammer \<lparr> target_users = [''root'', ''admin''], max_concurrent_tasks = 1 \<rparr> [] 2 0 0 (PyInt 100)
     True ''/'' (\<lambda>i. refused) 0 Returned
     \<lparr> count = 2, tasks = [], perf_times = [(1, refused_stat 1), (2, refused_stat 2)],
       user = 2, launched = [(1, ''root''), (2, ''admin'')] \<rparr> \<and>
   length [(1::int, refused_stat 1), (2, refused_stat 2)] = nat 2 \<and>
   distinct [1::int, 2] \<and> set [1::int, 2] = {1..2} \<and>
   conn_id (refused_stat 1) = 1 \<and> conn_id (refused_stat 2) = 2 \<and>
   [1::int, 2] = [1..2]"
proof -
  let ?self = "\<lparr> target_users = [''root'', ''admin''], max_concurrent_tasks = 1 \<rparr>"
  let ?e = "\<lparr> count = 2, tasks = [], perf_times = [(1::int, refused_stat 1), (2, refused_stat 2)],
              user = 2, launched = [(1::int, ''root''), (2, ''admin'')] \<rparr>"
  have r: "hammer ?self [] 2 0 0 (PyInt 100) True ''/'' (\<lambda>i. refused) 0 Returned ?e"
    unfolding hammer_def sshstress.simps
    by (rule example_run) (simp_all add: next_user_def)
  from r hammer_outcome_ids [OF r] show ?thesis by simp
qed

section \<open>Properties of the attempts\<close>

lemma wait_flag_nil: "wait_flag n [] = drop_all_timer n"
  by (rule ext) (simp add: wait_flag_def)

lemma attempt_by_failure:
  "attempt is_sftp wait cw ls env t =
     (case attempt_failure is_sftp (hold_phase (wait (reached_hold (env (fst t)))) cw) (env (fst t)) of
        Some e \<Rightarrow> except_clause (fst t) e
      | None \<Rightarrow> attempt is_sftp wait cw ls env t)"
  by (simp add: attempt_def attempt_failure_def sftp_def ssh_def
        split: outcome.splits option.splits)

lemma attempt_no_failure:
  "attempt_failure is_sftp (hold_phase (wait (reached_hold (env (fst t)))) cw) (env (fst t)) = None \<Longrightarrow>
   \<exists>cs. attempt is_sftp wait cw ls env t = Inr cs \<and> conn_id cs = fst t \<and> success cs"
  by (auto simp add: attempt_def attempt_failure_def sftp_def ssh_def
        split: outcome.splits option.splits if_splits)

lemma attempt_caught:
  assumes "attempt_failure is_sftp (hold_phase (wait (reached_hold (env (fst t)))) cw) (env (fst t)) = Some e"
  shows "attempt is_sftp wait cw ls env t = except_clause (fst t) e"
  using assms attempt_by_failure [of is_sftp wait cw ls env t] by simp

lemma reap_raises:
  "reap rs pt = Inl e \<Longrightarrow> Inl e \<in> set rs"
  by (induction rs pt rule: reap.induct) auto

lemma hammer_step_raised:
  assumes "hammer_step conns maxc users run p s p' s'" and "p' = Raised e"
  shows "(\<exists>t. run t = Inl e) \<or> e = Exc OtherException ''coroutine raised StopIteration''"
  using assms
proof (induction rule: hammer_step.induct)
  case (head_raise s dn e')
  then have "Inl e \<in> set (map run dn)" using reap_raises by blast
  then obtain t where "Inl e = run t" by auto
  then have "run t = Inl e" by simp
  then show ?case by blast
qed simp_all

lemma hammer_reach_raised:
  assumes "hammer_reach conns maxc users run cps pos (Raised e) s"
  shows "(\<exists>t. run t = Inl e) \<or> e = Exc OtherException ''coroutine raised StopIteration'' \<or>
         e = Exc OtherException (zero_division_text cps)"
  using assms
proof (cases rule: hammer_reach.cases)
  case (step p s0)
  then show ?thesis using hammer_step_raised by blast
qed simp_all

text \<open>
  C6, as stated. An exception that is none of \<^verbatim>\<open>OSError\<close>, \<^verbatim>\<open>asyncssh.Error\<close> and
  \<^verbatim>\<open>asyncio.TimeoutError\<close> (here the \<^verbatim>\<open>KeyImportError\<close>, a \<^verbatim>\<open>ValueError\<close>, that
  \<^verbatim>\<open>asyncssh.connect\<close> raises for a client key it cannot read) leaves the attempt, and
  \<^verbatim>\<open>task.result()\<close> raises it in the scheduler loop.
\<close>

theorem attempt_failure_counterexample:
  "attempt True (drop_all_timer 0) 0 ''/'' (\<lambda>i. bad_key) (1, ''root'') =
     Inl (Exc OtherException ''Passphrase must be specified to import encrypted private keys'') \<and>
   hammer \<lparr> target_users = [''root''], max_concurrent_tasks = 1 \<rparr> [] 1 0 0 (PyInt 100) True
     ''/'' (\<lambda>i. bad_key) 0
     (Raised (Exc OtherException ''Passphrase must be specified to import encrypted private keys''))
     \<lparr> count = 1, tasks = [], perf_times = [], user = 1, launched = [(1, ''root'')] \<rparr>"
proof -
  let ?e = "Exc OtherException ''Passphrase must be specified to import encrypted private keys''"
  let ?U = "[''root'']"
  let ?run = "attempt True (drop_all_timer 0) 0 ''/'' (\<lambda>i. bad_key)"
  let ?t1 = "(1::int, ''root'')"
  let ?a = "\<lparr> count = 0, tasks = [], perf_times = [], user = 0, launched = [] \<rparr>"
  let ?b = "\<lparr> count = 1, tasks = [?t1], perf_times = [], user = 1, launched = [?t1] \<rparr>"
  let ?c = "\<lparr> count = 1, tasks = [], perf_times = [], user = 1, launched = [?t1] \<rparr>"
  let ?R = "hammer_reach 1 1 ?U ?run (PyInt 100) 0"
  let ?S = "hammer_step 1 1 ?U ?run"
  have a: "?run ?t1 = Inl ?e"
    by (simp add: attempt_def sftp_def bad_key_def except_clause_def)
  have r0: "?R LoopHead ?a"
    using hammer_reach.enter [of "PyInt 100" 1 1 ?U ?run 0] by (simp add: hammer_init_def)
  have "?S LoopHead ?a Refill ?a" by (rule hammer_step.head_skip) simp_all
  with r0 have r1: "?R Refill ?a" by (rule hammer_reach.step)
  have "?S Refill ?a Refill ?b"
    using hammer_step.refill_launch [of ?a 1 1 ?U ?t1 ?run] by (simp add: next_user_def)
  with r1 have r2: "?R Refill ?b" by (rule hammer_reach.step)
  have "?S Refill ?b LoopHead ?b" by (rule hammer_step.refill_done) simp
  with r2 have r3: "?R LoopHead ?b" by (rule hammer_reach.step)
  have "?S LoopHead ?b (Raised ?e) ?c"
    using hammer_step.head_raise [of ?b 1 "[?t1]" ?run ?e 1 ?U] a by simp
  with r3 have "?R (Raised ?e) ?c" by (rule hammer_reach.step)
  with a show ?thesis by (simp add: hammer_def wait_flag_nil)
qed

text \<open>
  C6, amended. The failure of an attempt is the exception that its connect-and-authenticate,
  run-operation or wait phase raises. If the failures of all attempts are of the classes
  \<^verbatim>\<open>OSError\<close>, \<^verbatim>\<open>asyncssh.Error\<close> or \<^verbatim>\<open>asyncio.TimeoutError\<close>, then every attempt returns
  an outcome with its own id, a failed one that carries \<^verbatim>\<open>str(e)\<close> when it had the failure
  \<open>e\<close> and a successful one otherwise, and the scheduler loop is never left by an exception
  of an attempt: the only exceptions that can end it are its own (from
  \<^verbatim>\<open>1/conns_per_sec\<close> and from \<^verbatim>\<open>next(self.user)\<close> on an empty list of users).
\<close>

theorem attempt_failure_caught:
  assumes "\<forall>i h e. attempt_failure is_sftp h (env i) = Some e \<longrightarrow> caught e"
  shows "(\<exists>cs. attempt is_sftp (wait_flag gw pending) cw sftp_ls env t = Inr cs \<and> conn_id cs = fst t \<and>
            (case attempt_failure is_sftp
                    (hold_phase (wait_flag gw pending (reached_hold (env (fst t)))) cw) (env (fst t)) of
               Some e \<Rightarrow> \<not> success cs \<and> auth_time cs = None \<and> conn_time cs = None \<and>
                          results cs = ErrorText (exc_str e)
             | None \<Rightarrow> success cs)) \<and>
         (\<forall>p s e. hammer self pending conns cw gw cps is_sftp sftp_ls env pos p s \<longrightarrow> p = Raised e \<longrightarrow>
            e = Exc OtherException ''coroutine raised StopIteration'' \<or>
            e = Exc OtherException (zero_division_text cps))"
proof (intro conjI allI impI)
  let ?f = "attempt_failure is_sftp
              (hold_phase (wait_flag gw pending (reached_hold (env (fst t)))) cw) (env (fst t))"
  show "\<exists>cs. attempt is_sftp (wait_flag gw pending) cw sftp_ls env t = Inr cs \<and> conn_id cs = fst t \<and>
            (case ?f of
               Some e \<Rightarrow> \<not> success cs \<and> auth_time cs = None \<and> conn_time cs = None \<and>
                          results cs = ErrorText (exc_str e)
             | None \<Rightarrow> success cs)"
  proof (cases ?f)
    case None
    with attempt_no_failure [of is_sftp "wait_flag gw pending" env t cw sftp_ls] show ?thesis by simp
  next
    case (Some e)
    with assms have "caught e" by blast
    with attempt_caught [of is_sftp "wait_flag gw pending" env t cw e sftp_ls] Some show ?thesis
      by (simp add: except_clause_def)
  qed
next
  fix p s e
  assume h: "hammer self pending conns cw gw cps is_sftp sftp_ls env pos p s" and p: "p = Raised e"
  have no: "\<And>t. attempt is_sftp (wait_flag gw pending) cw sftp_ls env t \<noteq> Inl e"
  proof
    fix t assume a: "attempt is_sftp (wait_flag gw pending) cw sftp_ls env t = Inl e"
    let ?f = "attempt_failure is_sftp
              (hold_phase (wait_flag gw pending (reached_hold (env (fst t)))) cw) (env (fst t))"
    show False
    proof (cases ?f)
      case None
      with attempt_no_failure [of is_sftp "wait_flag gw pending" env t cw sftp_ls] a show False by simp
    next
      case (Some e')
      with assms have "caught e'" by blast
      with attempt_caught [of is_sftp "wait_flag gw pending" env t cw e' sftp_ls] Some a
      show False by (simp add: except_clause_def)
    qed
  qed
  from h p have "hammer_reach conns (max_concurrent_tasks self) (target_users self)
       (attempt is_sftp (wait_flag gw pending) cw sftp_ls env) cps pos (Raised e) s"
    by (simp add: hammer_def)
  from hammer_reach_raised [OF this] no
  show "e = Exc OtherException ''coroutine raised StopIteration'' \<or>
        e = Exc OtherException (zero_division_text cps)" by blast
qed

theorem attempt_failure_caught_witness:
  "(\<exists>cs. attempt True (wait_flag 0 []) 0 ''/'' (\<lambda>i. refused) (1, ''root'') = Inr cs \<and>
         conn_id cs = 1 \<and> \<not> success cs \<and> results cs = ErrorText ''Connection refused'') \<and>
   attempt_failure True (hold_phase (wait_flag 0 [] (reached_hold refused)) 0) refused
     = Some (Exc OSError ''Connection refused'') \<and>
   caught (Exc OSError ''Connection refused'')"
proof -
  have f: "\<And>h. attempt_failure True h refused = Some (Exc OSError ''Connection refused'')"
    by (simp add: attempt_failure_def refused_def)
  then have all: "\<forall>i h e. attempt_failure True h ((\<lambda>i. refused) i) = Some e \<longrightarrow> caught e"
    by auto
  have "\<exists>cs. attempt True (wait_flag 0 []) 0 ''/'' (\<lambda>i. refused) (1, ''root'') = Inr cs \<and>
          conn_id cs = fst (1::int, ''root'') \<and>
          (case attempt_failure True
                  (hold_phase (wait_flag 0 [] (reached_hold ((\<lambda>i. refused) (fst (1::int, ''root''))))) 0)
                  ((\<lambda>i. refused) (fst (1::int, ''root''))) of
             Some e \<Rightarrow> \<not> success cs \<and> auth_time cs = None \<and> conn_time cs = None \<and>
                        results cs = ErrorText (exc_str e)
           | None \<Rightarrow> success cs)"
    using attempt_failure_caught [OF all, of 0 "[]" 0 "''/''" "(1, ''root'')"] by (rule conjunct1)
  then show ?thesis by (auto simp add: f)
qed

lemma fl_1: "fl 1 = Finite 1"
proof -
  have e: "ilog2 1 = 0" by code_simp
  have m: "round_half_even (1 / pow2 (0 - 52)) = 4503599627370496" by code_simp
  have "fl 1 = Finite (of_int 4503599627370496 * pow2 (0 - 52))"
    by (rule fl_normal [OF _ e _ m]) (simp_all add: pow2_def)
  then show ?thesis by (simp add: pow2_def)
qed

lemma fl_7: "fl 7 = Finite 7"
proof -
  have e: "ilog2 7 = 2" by code_simp
  have m: "round_half_even (7 / pow2 (2 - 52)) = 7881299347898368" by code_simp
  have "fl 7 = Finite (of_int 7881299347898368 * pow2 (2 - 52))"
    by (rule fl_normal [OF _ e _ m]) (simp_all add: pow2_def)
  then show ?thesis by (simp add: pow2_def)
qed

lemma hold_before_deadline:
  "0 < gw \<Longrightarrow> t < of_int gw \<Longrightarrow> hold_phase (drop_all_timer gw t) cw = UntilDropped"
  by (simp add: hold_phase_def drop_all_timer_def)

lemma hold_after_deadline:
  "0 < gw \<Longrightarrow> of_int gw \<le> t \<Longrightarrow> hold_phase (drop_all_timer gw t) cw = Sleep cw"
  by (simp add: hold_phase_def drop_all_timer_def)

text \<open>In a second round the timer thread of the first round drops the flag before the
  round's own deadline: with \<^verbatim>\<open>global_wait = 10\<close> and rounds started one second apart, an
  attempt of round 2 that reaches its wait phase 9.5 seconds after the round's thread was
  started sleeps \<^verbatim>\<open>conn_wait\<close> seconds.\<close>

lemma hold_second_round:
  "hold_phase (wait_flag 10 (pending_writes 10 one_apart (Suc 0)) (19 / 2)) 5 = Sleep 5"
  by (simp add: hold_phase_def wait_flag_def pending_writes_def one_apart_def drop_all_timer_def)

text \<open>
  C5. With \<^verbatim>\<open>global_wait = 1\<close> and \<^verbatim>\<open>conn_wait = 5\<close>, an attempt that reaches its wait
  phase 2 seconds after the timer thread was started reads \<^verbatim>\<open>wait\<close> as false, since the
  timer has set it back, and sleeps \<^verbatim>\<open>conn_wait\<close> seconds: it closes 7 seconds after its
  start, in \<^verbatim>\<open>_sftp\<close> and in \<^verbatim>\<open>_ssh\<close> alike.
\<close>

theorem late_attempt_sleeps_conn_wait:
  "hold_phase (drop_all_timer 1 (reached_hold late)) 5 = Sleep 5 \<and>
   sftp (drop_all_timer 1) 3 ''root'' 5 ''/'' late =
     Inr \<lparr> conn_id = 3, success = True, auth_time = Some (Finite 1),
           conn_time = Some (Finite 7), results = Listing [''etc''] \<rparr> \<and>
   ssh (drop_all_timer 1) 3 ''root'' 5 late =
     Inr \<lparr> conn_id = 3, success = True, auth_time = Some (Finite 1),
           conn_time = Some (Finite 7), results = Completed ''ok'' \<rparr>"
  by (simp add: sftp_def ssh_def late_def hold_phase_def drop_all_timer_def fsub_def fl_1 fl_7)

section \<open>Properties of the round runner\<close>

lemma str_nat_nonempty: "str_nat n \<noteq> []"
  by (subst str_nat.simps) simp

lemma char_of_digit_inj:
  assumes "a < 10" "b < 10" "(char_of (48 + a) :: char) = char_of (48 + b)"
  shows "a = (b::nat)"
proof -
  from assms(3) have "(48 + a) mod 256 = (48 + b) mod 256" by (simp add: char_of_eq_iff take_bit_eq_mod)
  with assms(1,2) show ?thesis by simp
qed

lemma str_nat_inj: "str_nat n = str_nat m \<Longrightarrow> n = m"
proof (induction n arbitrary: m rule: str_nat.induct)
  case (1 n)
  show ?case
  proof (cases "n < 10")
    case True
    then have n: "str_nat n = [char_of (48 + n)]" by (subst str_nat.simps) simp
    show ?thesis
    proof (cases "m < 10")
      case m: True
      then have "str_nat m = [char_of (48 + m)]" by (subst str_nat.simps) simp
      with n "1.prems" True m show ?thesis using char_of_digit_inj by simp
    next
      case False
      then have "str_nat m = str_nat (m div 10) @ [char_of (48 + m mod 10)]"
        by (subst str_nat.simps) simp
      with n "1.prems" str_nat_nonempty [of "m div 10"] show ?thesis by simp
    qed
  next
    case False
    then have n: "str_nat n = str_nat (n div 10) @ [char_of (48 + n mod 10)]"
      by (subst str_nat.simps) simp
    show ?thesis
    proof (cases "m < 10")
      case True
      then have "str_nat m = [char_of (48 + m)]" by (subst str_nat.simps) simp
      with n "1.prems" str_nat_nonempty [of "n div 10"] show ?thesis by simp
    next
      case m: False
      then have "str_nat m = str_nat (m div 10) @ [char_of (48 + m mod 10)]"
        by (subst str_nat.simps) simp
      with n "1.prems" have a: "str_nat (n div 10) = str_nat (m div 10)"
        and b: "(char_of (48 + n mod 10) :: char) = char_of (48 + m mod 10)" by simp_all
      from "1.IH" [OF False a] have d: "n div 10 = m div 10" .
      from b have r: "n mod 10 = m mod 10" using char_of_digit_inj [of "n mod 10" "m mod 10"] by simp
      from d r show ?thesis by (metis div_mult_mod_eq)
    qed
  qed
qed

lemma round_key_inj: "round_key n = round_key m \<Longrightarrow> n = m"
  by (simp add: round_key_def str_nat_inj)

lemma update_fresh: "k \<notin> fst ` set al \<Longrightarrow> AList.update k v al = al @ [(k, v)]"
  by (induction al) auto

lemma map_filter_all_Some:
  "(\<And>x. x \<in> set xs \<Longrightarrow> f x = Some (g x)) \<Longrightarrow> List.map_filter f xs = map g xs"
  by (induction xs) simp_all

lemma sort_by_id_eq:
  "sort_by_id d = map (\<lambda>k. (k, the (map_of d k))) (sort (map fst d))"
proof -
  have "\<And>k. k \<in> set (sort (map fst d)) \<Longrightarrow>
          map_option (Pair k) (map_of d k) = Some (k, the (map_of d k))"
  proof -
    fix k assume "k \<in> set (sort (map fst d))"
    then have "k \<in> fst ` set d" by simp
    then obtain v where "map_of d k = Some v" by (metis domD dom_map_of_conv_image_fst)
    then show "map_option (Pair k) (map_of d k) = Some (k, the (map_of d k))" by simp
  qed
  then show ?thesis unfolding sort_by_id_def by (rule map_filter_all_Some)
qed

lemma sort_by_id_keys: "map fst (sort_by_id d) = sort (map fst d)"
  by (simp add: sort_by_id_eq comp_def)

lemma sort_by_id_set:
  assumes "distinct (map fst d)"
  shows "set (sort_by_id d) = set d"
proof -
  have "set (sort_by_id d) = (\<lambda>k. (k, the (map_of d k))) ` fst ` set d"
    by (simp add: sort_by_id_eq)
  also have "\<dots> = (\<lambda>p. (fst p, the (map_of d (fst p)))) ` set d"
    by (simp add: image_image)
  also have "\<dots> = (\<lambda>p. p) ` set d"
  proof (rule image_cong [OF refl])
    fix p assume "p \<in> set d"
    then have "map_of d (fst p) = Some (snd p)"
      using map_of_is_SomeI [OF assms, of "fst p" "snd p"] by simp
    then show "(fst p, the (map_of d (fst p))) = p" by simp
  qed
  finally show ?thesis by simp
qed

lemma sort_by_id_sorted: "sorted (map fst (sort_by_id d))"
  by (simp add: sort_by_id_keys)

lemma sort_keys_upto:
  assumes "distinct xs" and "set xs = {1..n::int}"
  shows "sort xs = [1..n]"
proof (rule sorted_distinct_set_unique)
  show "sorted (sort xs)" by simp
  show "distinct (sort xs)" using assms(1) by simp
  show "sorted [1..n]" by simp
  show "distinct [1..n]" by simp
  show "set (sort xs) = set [1..n]" using assms(2) by simp
qed

lemma rounds_inv_pass:
  assumes inv: "rounds_inv self started conns cw gw cps is_sftp sftp_ls env pos0 k pt pos lg"
    and h: "hammer self (pending_writes gw started k) conns cw gw cps is_sftp sftp_ls (env (Suc k)) pos Returned s"
  shows "rounds_inv self started conns cw gw cps is_sftp sftp_ls env pos0 (Suc k)
           (AList.update (round_key (Suc k)) (sort_by_id (perf_times s)) pt)
           (user s) (lg @ launched s)"
proof -
  let ?n = "nat conns"
  let ?U = "target_users self"
  let ?rd = "sort_by_id (perf_times s)"
  from inv have keys: "map fst pt = map round_key [1..<Suc k]"
    and ent: "\<forall>i<k. \<exists>s. hammer self (pending_writes gw started i) conns cw gw cps is_sftp sftp_ls (env (Suc i))
                    (pos0 + i * ?n) Returned s \<and>
                  snd (pt ! i) = sort_by_id (perf_times s) \<and>
                  set (snd (pt ! i)) = set (perf_times s) \<and>
                  map fst (snd (pt ! i)) = [1..conns]"
    and pos: "pos = pos0 + k * ?n"
    and lf: "map fst lg = concat (replicate k [1..conns])"
    and ls: "map snd lg = map (\<lambda>j. next_user ?U (pos0 + j)) [0..<k * ?n]"
    by (simp_all add: rounds_inv_def)
  from hammer_returned_ids [OF h [unfolded hammer_def] attempt_id]
  have dk: "distinct (map fst (perf_times s))"
    and sk: "set (map fst (perf_times s)) = {1..conns}"
    and lm: "map fst (launched s) = [1..conns]"
    and us: "user s = pos + ?n"
    and lu: "map snd (launched s) = map (\<lambda>j. next_user ?U (pos + j)) [0..<?n]"
    by simp_all
  have len: "length pt = k"
  proof -
    have "length pt = length (map fst pt)" by simp
    also have "\<dots> = k" unfolding keys by simp
    finally show ?thesis .
  qed
  have fresh: "round_key (Suc k) \<notin> fst ` set pt"
  proof
    assume "round_key (Suc k) \<in> fst ` set pt"
    then have "round_key (Suc k) \<in> set (map fst pt)" by simp
    then have "round_key (Suc k) \<in> round_key ` {1..<Suc k}"
      unfolding keys set_map set_upt .
    then obtain m where m: "m \<in> {1..<Suc k}" and e: "round_key (Suc k) = round_key m" by blast
    from m have "m < Suc k" by simp
    with round_key_inj [OF e] show False by simp
  qed
  have upd: "AList.update (round_key (Suc k)) ?rd pt = pt @ [(round_key (Suc k), ?rd)]"
    using update_fresh [OF fresh] .
  have c1: "map fst (pt @ [(round_key (Suc k), ?rd)]) = map round_key [1..<Suc (Suc k)]"
    using keys by simp
  have rdk: "map fst ?rd = [1..conns]"
    using sort_keys_upto [OF dk sk] by (simp add: sort_by_id_keys)
  have rds: "set ?rd = set (perf_times s)" using sort_by_id_set [OF dk] .
  have c2: "\<forall>i<Suc k. \<exists>s. hammer self (pending_writes gw started i) conns cw gw cps is_sftp sftp_ls (env (Suc i))
                    (pos0 + i * ?n) Returned s \<and>
                  snd ((pt @ [(round_key (Suc k), ?rd)]) ! i) = sort_by_id (perf_times s) \<and>
                  set (snd ((pt @ [(round_key (Suc k), ?rd)]) ! i)) = set (perf_times s) \<and>
                  map fst (snd ((pt @ [(round_key (Suc k), ?rd)]) ! i)) = [1..conns]"
  proof (intro allI impI)
    fix i assume "i < Suc k"
    show "\<exists>s. hammer self (pending_writes gw started i) conns cw gw cps is_sftp sftp_ls (env (Suc i))
                    (pos0 + i * ?n) Returned s \<and>
                  snd ((pt @ [(round_key (Suc k), ?rd)]) ! i) = sort_by_id (perf_times s) \<and>
                  set (snd ((pt @ [(round_key (Suc k), ?rd)]) ! i)) = set (perf_times s) \<and>
                  map fst (snd ((pt @ [(round_key (Suc k), ?rd)]) ! i)) = [1..conns]"
    proof (cases "i < k")
      case True
      with ent len show ?thesis by (simp add: nth_append)
    next
      case False
      with \<open>i < Suc k\<close> have "i = k" by simp
      with h pos rdk rds len show ?thesis by (auto simp: nth_append)
    qed
  qed
  have c3: "user s = pos0 + Suc k * ?n" using us pos by simp
  have c4: "map fst (lg @ launched s) = concat (replicate (Suc k) [1..conns])"
  proof -
    have "concat (replicate (Suc k) [1..conns]) = concat (replicate k [1..conns] @ [[1..conns]])"
      by (simp only: replicate_append_same) simp
    then show ?thesis using lf lm by simp
  qed
  have c5: "map snd (lg @ launched s) = map (\<lambda>j. next_user ?U (pos0 + j)) [0..<Suc k * ?n]"
  proof -
    have "map (\<lambda>j. next_user ?U (pos + j)) [0..<?n]
            = map (\<lambda>j. next_user ?U (pos0 + j)) (map (\<lambda>j. j + k * ?n) [0..<?n])"
      by (simp add: pos comp_def ac_simps)
    also have "\<dots> = map (\<lambda>j. next_user ?U (pos0 + j)) [k * ?n..<k * ?n + ?n]"
      by (simp only: map_add_upt add.commute)
    finally have "map snd (launched s) = map (\<lambda>j. next_user ?U (pos0 + j)) [k * ?n..<k * ?n + ?n]"
      using lu by simp
    moreover have "[0..<Suc k * ?n] = [0..<k * ?n] @ [k * ?n..<k * ?n + ?n]"
      using upt_add_eq_append [of 0 "k * ?n" ?n] by (simp add: add.commute)
    ultimately show ?thesis using ls by simp
  qed
  show ?thesis unfolding rounds_inv_def upd using c1 c2 c3 c4 c5 by blast
qed

lemma stress_rounds_inv:
  assumes "stress_rounds self started conns cw gw cps rnds is_sftp sftp_ls env pos0 k pt pos lg"
  shows "rounds_inv self started conns cw gw cps is_sftp sftp_ls env pos0 k pt pos lg"
  using assms
proof (induction rule: stress_rounds.induct)
  case before
  show ?case by (simp add: rounds_inv_def)
next
  case (pass k pt pos lg s)
  then show ?case using rounds_inv_pass by blast
qed

lemma nth_concat_replicate:
  "j < k * length xs \<Longrightarrow> concat (replicate k xs) ! j = xs ! (j mod length xs)"
proof (induction k arbitrary: j)
  case 0
  then show ?case by simp
next
  case (Suc k)
  show ?case
  proof (cases "j < length xs")
    case True
    then show ?thesis by (simp add: nth_append)
  next
    case False
    then have "j - length xs < k * length xs" using Suc.prems by simp
    from Suc.IH [OF this] False show ?thesis by (simp add: nth_append le_mod_geq)
  qed
qed

lemma round_key_1: "round_key (Suc 0) = ''round_1''"
  by code_simp

lemma round_key_2: "round_key (Suc (Suc 0)) = ''round_2''"
  by code_simp

lemma sort_by_id_two:
  "sort_by_id [(1, a), (2, b)] = [(1, a), (2, b)]"
  by (simp add: sort_by_id_def)

lemma next_user_three:
  "next_user [''root'', ''admin'', ''guest''] 0 = ''root''"
  "next_user [''root'', ''admin'', ''guest''] (Suc 0) = ''admin''"
  "next_user [''root'', ''admin'', ''guest''] 2 = ''guest''"
  "next_user [''root'', ''admin'', ''guest''] 3 = ''root''"
  by (simp_all add: next_user_def)

lemma example_rounds:
  "stress_rounds three_users started 2 cw gw (PyInt 100) 2 is_sftp ls (\<lambda>r i. refused) 0 2
     [(''round_1'', [(1, refused_stat 1), (2, refused_stat 2)]),
      (''round_2'', [(1, refused_stat 1), (2, refused_stat 2)])]
     4
     [(1, ''root''), (2, ''admin''), (1, ''guest''), (2, ''root'')]"
proof -
  let ?U = "[''root'', ''admin'', ''guest'']"
  let ?rd = "[(1::int, refused_stat 1), (2, refused_stat 2)]"
  let ?R = "stress_rounds three_users started 2 cw gw (PyInt 100) 2 is_sftp ls (\<lambda>r i. refused) 0"
  have h1: "hammer three_users (pending_writes gw started 0) 2 cw gw (PyInt 100) is_sftp ls (\<lambda>i. refused) 0 Returned
            \<lparr> count = 2, tasks = [], perf_times = ?rd, user = 2,
              launched = [(1, ''root''), (2, ''admin'')] \<rparr>"
    unfolding hammer_def three_users_def sshstress.simps
    by (rule example_run) (simp_all add: next_user_three)
  have h2: "hammer three_users (pending_writes gw started (Suc 0)) 2 cw gw (PyInt 100) is_sftp ls (\<lambda>i. refused) 2 Returned
            \<lparr> count = 2, tasks = [], perf_times = ?rd, user = 4,
              launched = [(1, ''guest''), (2, ''root'')] \<rparr>"
    unfolding hammer_def three_users_def sshstress.simps
    by (rule example_run) (simp_all add: next_user_three)
  have r0: "?R 0 [] 0 []" by (rule stress_rounds.before)
  have r1: "?R (Suc 0) [(''round_1'', ?rd)] 2 [(1, ''root''), (2, ''admin'')]"
    using stress_rounds.pass [OF r0 _ h1] by (simp add: round_key_1 sort_by_id_two)
  have r2: "?R (Suc (Suc 0)) [(''round_1'', ?rd), (''round_2'', ?rd)] 4
              [(1, ''root''), (2, ''admin''), (1, ''guest''), (2, ''root'')]"
    using stress_rounds.pass [OF r1 _ h2] by (simp add: round_key_2 sort_by_id_two)
  have "Suc (Suc 0) = 2" by simp
  with r2 show ?thesis by (simp only:)
qed

text \<open>
  C10. \<^verbatim>\<open>self.user\<close> is advanced once per attempt and never reset: in a run that starts
  with \<^verbatim>\<open>self.user\<close> advanced \<open>pos0\<close> times (0 for a new instance), the attempt with index
  \<open>j\<close> in launch order over all rounds, counted from 0, has the id \<open>1 + j mod conns\<close> in
  its round and the user name \<open>target_users[(pos0 + j) mod len(target_users)]\<close>; after
  \<open>k\<close> rounds \<open>k * conns\<close> attempts have been launched.
\<close>

theorem username_rotation:
  assumes "stress_rounds self started conns cw gw cps rnds is_sftp sftp_ls env pos0 k pt pos lg"
    and "j < length lg"
  shows "lg ! j = (1 + int (j mod nat conns),
                   target_users self ! ((pos0 + j) mod length (target_users self))) \<and>
         length lg = k * nat conns \<and> pos = pos0 + length lg"
proof -
  let ?n = "nat conns"
  from stress_rounds_inv [OF assms(1)]
  have pos: "pos = pos0 + k * ?n"
    and lf: "map fst lg = concat (replicate k [1..conns])"
    and ls: "map snd lg = map (\<lambda>j. next_user (target_users self) (pos0 + j)) [0..<k * ?n]"
    by (simp_all add: rounds_inv_def)
  have "length lg = length (map snd lg)" by simp
  also have "\<dots> = k * ?n" unfolding ls by simp
  finally have len: "length lg = k * ?n" .
  with assms(2) have j: "j < k * ?n" by simp
  then have npos: "0 < ?n" by (cases "?n") simp_all
  have lu: "length [1..conns] = ?n" by simp
  have "fst (lg ! j) = map fst lg ! j" using assms(2) by simp
  also have "\<dots> = [1..conns] ! (j mod ?n)"
    unfolding lf using nth_concat_replicate [of j k "[1..conns]"] j lu by simp
  also have "\<dots> = 1 + int (j mod ?n)"
  proof (rule nth_upto)
    have "j mod ?n < ?n" using npos by simp
    then show "1 + int (j mod ?n) \<le> conns" by linarith
  qed
  finally have f: "fst (lg ! j) = 1 + int (j mod ?n)" .
  have "snd (lg ! j) = map snd lg ! j" using assms(2) by simp
  also have "\<dots> = next_user (target_users self) (pos0 + j)" unfolding ls using j by simp
  finally have s: "snd (lg ! j) = target_users self ! ((pos0 + j) mod length (target_users self))"
    by (simp add: next_user_def)
  from f s len pos show ?thesis by (simp add: prod_eq_iff)
qed

theorem username_rotation_witness:
  "stress_rounds three_users one_apart 2 0 0 (PyInt 100) 2 True ''/'' (\<lambda>r i. refused) 0 2
     [(''round_1'', [(1, refused_stat 1), (2, refused_stat 2)]),
      (''round_2'', [(1, refused_stat 1), (2, refused_stat 2)])]
     4
     [(1, ''root''), (2, ''admin''), (1, ''guest''), (2, ''root'')] \<and>
   (2::nat) < length [(1::int, ''root''), (2, ''admin''), (1, ''guest''), (2, ''root'')] \<and>
   [(1::int, ''root''), (2, ''admin''), (1, ''guest''), (2, ''root'')] ! 2
     = (1 + int (2 mod nat 2), target_users three_users ! ((0 + 2) mod length (target_users three_users))) \<and>
   [(1::int, ''root''), (2, ''admin''), (1, ''guest''), (2, ''root'')] ! 2 = (1, ''guest'')"
proof -
  let ?lg = "[(1::int, ''root''), (2, ''admin''), (1, ''guest''), (2, ''root'')]"
  have r: "stress_rounds three_users one_apart 2 0 0 (PyInt 100) 2 True ''/'' (\<lambda>r i. refused) 0 2
     [(''round_1'', [(1, refused_stat 1), (2, refused_stat 2)]),
      (''round_2'', [(1, refused_stat 1), (2, refused_stat 2)])] 4 ?lg"
    by (rule example_rounds)
  have j: "(2::nat) < length ?lg" by simp
  have v: "?lg ! 2 = (1, ''guest'')" by simp
  have e: "?lg ! 2 = (1 + int (2 mod nat 2),
             target_users three_users ! ((0 + 2) mod length (target_users three_users)))"
    using username_rotation [OF r j] by (rule conjunct1)
  from r j e v show ?thesis by blast
qed

section \<open>Every round is run\<close>

subsection \<open>Every run of the scheduler loop returns\<close>






lemma hammer_step_spins:
  assumes "hammer_step conns maxc users run p s p' s'" and "maxc \<le> 0" and "0 < conns"
    and "s = hammer_init pos"
  shows "s' = hammer_init pos \<and> p' \<noteq> Returned"
  using assms by (induction rule: hammer_step.induct) (simp_all add: hammer_init_def)

lemma hammer_reach_spins:
  assumes "hammer_reach conns maxc users run cps pos p s" and "maxc \<le> 0" and "0 < conns"
  shows "s = hammer_init pos \<and> p \<noteq> Returned"
  using assms
proof (induction rule: hammer_reach.induct)
  case (step p s p' s')
  then show ?case using hammer_step_spins by blast
qed simp_all










subsection \<open>The statistics of the outcomes of attempts\<close>

















subsection \<open>The rounds\<close>











section \<open>The statistics on the store and on values\<close>

lemma lookup_frame:
  "frame h0 h \<Longrightarrow> lookup h0 a = Some ob \<Longrightarrow> lookup h a = Some ob"
  by (auto simp: frame_def lookup_def split: if_splits)

lemma those_map_cong:
  assumes "those (map f xs) = Some ys" and "\<And>x y. x \<in> set xs \<Longrightarrow> f x = Some y \<Longrightarrow> g x = Some y"
  shows "those (map g xs) = Some ys"
  using assms
proof (induction xs arbitrary: ys)
  case Nil
  then show ?case by simp
next
  case (Cons x xs)
  from Cons.prems(1) obtain y zs where y: "f x = Some y" and zs: "those (map f xs) = Some zs"
    and ys: "ys = y # zs"
    by (auto split: option.splits)
  from Cons.IH [OF zs] Cons.prems(2) have "those (map g xs) = Some zs" by simp
  moreover from Cons.prems(2) y have "g x = Some y" by simp
  ultimately show ?case using ys by simp
qed

lemma load_conn_frame:
  "frame h0 h \<Longrightarrow> load_conn h0 a = Some d \<Longrightarrow> load_conn h a = Some d"
  by (auto simp: load_conn_def split: option.splits pyobj.splits dest: lookup_frame)

lemma load_round_frame:
  assumes "frame h0 h" and "load_round h0 a = Some rd"
  shows "load_round h a = Some rd"
proof -
  from assms(2) obtain refs where l: "lookup h0 a = Some (RoundDict refs)"
    and t: "those (map (\<lambda>(k, r). map_option (Pair k) (load_conn h0 r)) refs) = Some rd"
    by (auto simp: load_round_def split: option.splits pyobj.splits)
  have "those (map (\<lambda>(k, r). map_option (Pair k) (load_conn h r)) refs) = Some rd"
    using t
  proof (rule those_map_cong)
    fix x y
    assume "(case x of (k, r) \<Rightarrow> map_option (Pair k) (load_conn h0 r)) = Some y"
    then show "(case x of (k, r) \<Rightarrow> map_option (Pair k) (load_conn h r)) = Some y"
      using load_conn_frame [OF assms(1)] by (cases x) auto
  qed
  with lookup_frame [OF assms(1) l] show ?thesis by (simp add: load_round_def)
qed

lemma load_perf_frame:
  assumes "frame h0 h" and "load_perf h0 a = Some pt"
  shows "load_perf h a = Some pt"
proof -
  from assms(2) obtain refs where l: "lookup h0 a = Some (PerfDict refs)"
    and t: "those (map (\<lambda>(n, r). map_option (Pair n) (load_round h0 r)) refs) = Some pt"
    by (auto simp: load_perf_def split: option.splits pyobj.splits)
  have "those (map (\<lambda>(n, r). map_option (Pair n) (load_round h r)) refs) = Some pt"
    using t
  proof (rule those_map_cong)
    fix x y
    assume "(case x of (n, r) \<Rightarrow> map_option (Pair n) (load_round h0 r)) = Some y"
    then show "(case x of (n, r) \<Rightarrow> map_option (Pair n) (load_round h r)) = Some y"
      using load_round_frame [OF assms(1)] by (cases x) auto
  qed
  with lookup_frame [OF assms(1) l] show ?thesis by (simp add: load_perf_def)
qed

lemma those_length: "those xs = Some ys \<Longrightarrow> length ys = length xs"
  by (induction xs arbitrary: ys) (auto split: option.splits)

lemma tally_refs_eq:
  assumes "those (map (\<lambda>(k, r). map_option (Pair k) (load_conn h r)) refs) = Some rd"
  shows "tally_refs h (map snd refs) v = tally_all (map snd rd) v"
  using assms
proof (induction refs arbitrary: rd v)
  case Nil
  then show ?case by simp
next
  case (Cons x refs)
  obtain k r where x: "x = (k, r)" by (cases x)
  from Cons.prems x obtain d zs where d: "load_conn h r = Some d"
    and zs: "those (map (\<lambda>(k, r). map_option (Pair k) (load_conn h r)) refs) = Some zs"
    and rd: "rd = (k, d) # zs"
    by (auto split: option.splits)
  from d have l: "lookup h r = Some (ConnStat d)"
    by (auto simp: load_conn_def split: option.splits pyobj.splits)
  show ?case
  proof (cases "tally d v")
    case (Inl e)
    with l x rd show ?thesis by simp
  next
    case (Inr v')
    with l x rd Cons.IH [OF zs, of v'] show ?thesis by simp
  qed
qed

lemma round_summary_st_eq:
  assumes "load_round h a = Some rd"
  shows "round_summary_st h a = map_sum id (\<lambda>rs. with_conn_data rs a) (round_summary rd)"
proof -
  from assms obtain refs where l: "lookup h a = Some (RoundDict refs)"
    and t: "those (map (\<lambda>(k, r). map_option (Pair k) (load_conn h r)) refs) = Some rd"
    by (auto simp: load_round_def split: option.splits pyobj.splits)
  have len: "length rd = length refs" using those_length [OF t] by simp
  have ta: "tally_refs h (map snd refs) round_vars_init = tally_all (map snd rd) round_vars_init"
    by (rule tally_refs_eq [OF t])
  show ?thesis
    by (simp add: round_summary_st_def round_summary_def l ta len with_conn_data_def
          split: sum.splits prod.splits)
qed

lemma round_summary_conn_data: "round_summary rd = Inr rs \<Longrightarrow> conn_data rs = rd"
  by (auto simp: round_summary_def split: sum.splits prod.splits)

lemma with_conn_data_twice: "with_conn_data (with_conn_data rs a) (conn_data rs) = rs"
  by (simp add: with_conn_data_def)

lemma list_all2_update:
  assumes "list_all2 R xs ys" and "\<And>x y. R x y \<Longrightarrow> fst y = fst x" and "R (k, a) (k, b)"
  shows "list_all2 R (AList.update k a xs) (AList.update k b ys)"
  using assms(1)
proof (induction rule: list_all2_induct)
  case Nil
  show ?case using assms(3) by simp
next
  case (Cons x xs y ys)
  from assms(2) [OF Cons.hyps(1)] have "fst y = fst x" .
  with Cons assms(3) show ?case by (cases x; cases y) auto
qed

lemma those_list_all2:
  "list_all2 (\<lambda>x y. f x = Some y) xs ys \<Longrightarrow> those (map f xs) = Some ys"
  by (induction rule: list_all2_induct) simp_all

lemma entry_rel_fst: "entry_rel h0 rda h x y \<Longrightarrow> fst y = fst x"
  by (simp add: entry_rel_def)

lemma entry_rel_mono:
  assumes "entry_rel h0 rda h x y" and "length h \<le> length h'"
    and "\<And>a. a < length h \<Longrightarrow> rda < a \<Longrightarrow> h' ! a = h ! a"
  shows "entry_rel h0 rda h' x y"
  using assms unfolding entry_rel_def by auto

lemma rounds_loop_st_eq:
  assumes "frame h0 h"
    and "those (map (\<lambda>(n, r). map_option (Pair n) (load_round h0 r)) items) = Some pt"
    and "length h0 < rda" and "rda < length h"
    and "h ! rda = RoundsDict entries"
    and "list_all2 (entry_rel h0 rda h) entries acc"
  shows "case rounds_loop pt acc of
           Inl e \<Rightarrow> rounds_loop_st items rda h = Inl e
         | Inr out \<Rightarrow>
            (\<exists>h' entries'. rounds_loop_st items rda h = Inr h' \<and> frame h0 h' \<and>
               length h \<le> length h' \<and> (\<forall>a<rda. h' ! a = h ! a) \<and>
               h' ! rda = RoundsDict entries' \<and> list_all2 (entry_rel h0 rda h') entries' out)"
  using assms
proof (induction items arbitrary: pt h entries acc)
  case Nil
  then show ?case by auto
next
  case (Cons x items)
  obtain name a where x: "x = (name, a)" by (cases x)
  from Cons.prems(2) x obtain rd rest where rd: "load_round h0 a = Some rd"
    and rest: "those (map (\<lambda>(n, r). map_option (Pair n) (load_round h0 r)) items) = Some rest"
    and pt: "pt = (name, rd) # rest"
    by (auto split: option.splits)
  have st: "round_summary_st h a = map_sum id (\<lambda>rs. with_conn_data rs a) (round_summary rd)"
    using round_summary_st_eq [OF load_round_frame [OF Cons.prems(1) rd]] .
  show ?case
  proof (cases "round_summary rd")
    case (Inl e)
    with st x pt show ?thesis by simp
  next
    case (Inr rs)
    let ?ra = "length h"
    let ?h1 = "h @ [RoundEntry (with_conn_data rs a)]"
    let ?es = "AList.update name ?ra entries"
    let ?h2 = "?h1[rda := RoundsDict ?es]"
    have l1: "lookup ?h1 rda = Some (RoundsDict entries)"
      using Cons.prems(4,5) by (simp add: lookup_def nth_append)
    have run: "rounds_loop_st (x # items) rda h = rounds_loop_st items rda ?h2"
      using st Inr x l1 by (simp add: new_obj_def)
    have pure: "rounds_loop pt acc = rounds_loop rest (AList.update name rs acc)"
      using pt Inr by simp
    have f2: "frame h0 ?h2"
      using Cons.prems(1,3) by (auto simp: frame_def nth_append)
    have r2: "rda < length ?h2" using Cons.prems(4) by simp
    have e2: "?h2 ! rda = RoundsDict ?es" using Cons.prems(4) by simp
    have new: "entry_rel h0 rda ?h2 (name, ?ra) (name, rs)"
      unfolding entry_rel_def
      using Cons.prems(4) rd round_summary_conn_data [OF Inr]
      by (auto simp: nth_append with_conn_data_def)
    have old: "list_all2 (entry_rel h0 rda ?h2) entries acc"
    proof (rule list_all2_mono [OF Cons.prems(6)])
      fix u v assume "entry_rel h0 rda h u v"
      then show "entry_rel h0 rda ?h2 u v"
        by (rule entry_rel_mono) (auto simp: nth_append)
    qed
    have a2: "list_all2 (entry_rel h0 rda ?h2) ?es (AList.update name rs acc)"
      using old entry_rel_fst new by (rule list_all2_update)
    from Cons.IH [OF f2 rest Cons.prems(3) r2 e2 a2]
    have ih: "case rounds_loop rest (AList.update name rs acc) of
           Inl e \<Rightarrow> rounds_loop_st items rda ?h2 = Inl e
         | Inr out \<Rightarrow>
            (\<exists>h' entries'. rounds_loop_st items rda ?h2 = Inr h' \<and> frame h0 h' \<and>
               length ?h2 \<le> length h' \<and> (\<forall>a<rda. h' ! a = ?h2 ! a) \<and>
               h' ! rda = RoundsDict entries' \<and> list_all2 (entry_rel h0 rda h') entries' out)" .
    show ?thesis
    proof (cases "rounds_loop rest (AList.update name rs acc)")
      case (Inl e)
      with ih run pure show ?thesis by simp
    next
      case out: (Inr out)
      with ih obtain h' entries' where h': "rounds_loop_st items rda ?h2 = Inr h'"
        and f': "frame h0 h'" and len: "length ?h2 \<le> length h'"
        and same: "\<forall>a<rda. h' ! a = ?h2 ! a"
        and e': "h' ! rda = RoundsDict entries'"
        and a': "list_all2 (entry_rel h0 rda h') entries' out"
        by auto
      have same': "\<forall>a<rda. h' ! a = h ! a"
      proof (intro allI impI)
        fix b assume b: "b < rda"
        with same have "h' ! b = ?h2 ! b" by simp
        also have "\<dots> = h ! b" using b Cons.prems(4) by (simp add: nth_append)
        finally show "h' ! b = h ! b" .
      qed
      have len': "length h \<le> length h'" using len by simp
      from h' f' len' same' e' a' run pure out show ?thesis by auto
    qed
  qed
qed

lemma frame_take: "frame h0 h \<Longrightarrow> take (length h0) h = h0"
  by (auto simp: frame_def intro: nth_equalityI)

lemma load_entry_rel:
  assumes "entry_rel h0 rda h x y" and "frame h0 h"
  shows "map_option (Pair (fst x)) (load_entry h (snd x)) = Some y"
proof -
  from assms(1) obtain rs where f: "fst y = fst x" and lt: "snd x < length h"
    and ob: "h ! snd x = RoundEntry rs"
    and ld: "load_round h0 (conn_data rs) = Some (conn_data (snd y))"
    and y: "snd y = with_conn_data rs (conn_data (snd y))"
    by (auto simp: entry_rel_def)
  from load_round_frame [OF assms(2) ld] lt ob have "load_entry h (snd x) = Some (snd y)"
    using y by (simp add: load_entry_def lookup_def)
  with f show ?thesis by (simp add: prod_eq_iff)
qed

lemma calculate_stats_st_eq:
  assumes "load_perf h p = Some pt"
  shows "case calculate_stats plt pt conns rnds cps cw gw graph stype of
           Inl e \<Rightarrow> calculate_stats_st plt h p conns rnds cps cw gw graph stype = Inl e
         | Inr st \<Rightarrow>
            (\<exists>h' r. calculate_stats_st plt h p conns rnds cps cw gw graph stype = Inr (h', r) \<and>
               take (length h) h' = h \<and> load_stats h' r = Some st)"
proof -
  let ?s0 = "\<lparr> stress_type = stype, rounds = rnds, conns_per_round = conns,
               total_conns = conns * rnds, conns_per_sec = cps, conn_wait = cw,
               global_wait = gw, round_data = None :: nat option \<rparr>"
  let ?sa = "length h"
  let ?rda = "Suc (length h)"
  let ?h2 = "h @ [Stats ?s0] @ [RoundsDict []]"
  from assms obtain items where l: "lookup h p = Some (PerfDict items)"
    and t: "those (map (\<lambda>(n, r). map_option (Pair n) (load_round h r)) items) = Some pt"
    by (auto simp: load_perf_def split: option.splits pyobj.splits)
  have f2: "frame h ?h2" by (simp add: frame_def nth_append)
  have l2: "lookup ?h2 p = Some (PerfDict items)" using lookup_frame [OF f2 l] .
  have run: "calculate_stats_st plt h p conns rnds cps cw gw graph stype =
      (case rounds_loop_st items ?rda ?h2 of
         Inl e \<Rightarrow> Inl e
       | Inr h3 \<Rightarrow>
          (case lookup h3 ?sa of
             Some (Stats st) \<Rightarrow>
               graph_and_return_st plt graph (h3[?sa := Stats (st\<lparr> round_data := Some ?rda \<rparr>)]) ?sa
           | _ \<Rightarrow> Inl TypeError))"
    using l2 by (simp add: calculate_stats_st_def new_obj_def
          cong: sum.case_cong option.case_cong pyobj.case_cong)
  have loop: "case rounds_loop pt [] of
           Inl e \<Rightarrow> rounds_loop_st items ?rda ?h2 = Inl e
         | Inr out \<Rightarrow>
            (\<exists>h' entries'. rounds_loop_st items ?rda ?h2 = Inr h' \<and> frame h h' \<and>
               length ?h2 \<le> length h' \<and> (\<forall>a<?rda. h' ! a = ?h2 ! a) \<and>
               h' ! ?rda = RoundsDict entries' \<and> list_all2 (entry_rel h ?rda h') entries' out)"
    by (rule rounds_loop_st_eq [OF f2 t]) (simp_all add: nth_append)
  show ?thesis
  proof (cases "rounds_loop pt []")
    case (Inl e)
    with loop run show ?thesis by (simp add: calculate_stats_def)
  next
    case (Inr out)
    with loop obtain h3 entries where h3: "rounds_loop_st items ?rda ?h2 = Inr h3"
      and f3: "frame h h3" and len: "length ?h2 \<le> length h3"
      and same: "\<forall>a<?rda. h3 ! a = ?h2 ! a"
      and e3: "h3 ! ?rda = RoundsDict entries"
      and a3: "list_all2 (entry_rel h ?rda h3) entries out"
      by auto
    from same have s3: "h3 ! ?sa = Stats ?s0" by (simp add: nth_append)
    let ?h4 = "h3[?sa := Stats (?s0\<lparr> round_data := Some ?rda \<rparr>)]"
    have l3: "lookup h3 ?sa = Some (Stats ?s0)" using s3 len by (simp add: lookup_def)
    have res: "calculate_stats_st plt h p conns rnds cps cw gw graph stype =
                 graph_and_return_st plt graph ?h4 ?sa"
      using run h3 l3 by simp
    have f4: "frame h ?h4" using f3 by (simp add: frame_def)
    have a4: "list_all2 (entry_rel h ?rda ?h4) entries out"
    proof (rule list_all2_mono [OF a3])
      fix u v assume "entry_rel h ?rda h3 u v"
      then show "entry_rel h ?rda ?h4 u v" by (rule entry_rel_mono) simp_all
    qed
    have "list_all2 (\<lambda>x y. (case x of (n, r) \<Rightarrow> map_option (Pair n) (load_entry ?h4 r)) = Some y)
            entries out"
    proof (rule list_all2_mono [OF a4])
      fix u v assume "entry_rel h ?rda ?h4 u v"
      from load_entry_rel [OF this f4]
      show "(case u of (n, r) \<Rightarrow> map_option (Pair n) (load_entry ?h4 r)) = Some v"
        by (cases u) simp
    qed
    then have th: "those (map (\<lambda>(n, r). map_option (Pair n) (load_entry ?h4 r)) entries) = Some out"
      by (rule those_list_all2)
    have "lookup ?h4 ?rda = Some (RoundsDict entries)" using e3 len by (simp add: lookup_def)
    with th have lr: "load_rounds ?h4 ?rda = Some out" by (simp add: load_rounds_def)
    have "lookup ?h4 ?sa = Some (Stats (?s0\<lparr> round_data := Some ?rda \<rparr>))"
      using len by (simp add: lookup_def)
    with lr have ls: "load_stats ?h4 ?sa =
        Some \<lparr> stress_type = stype, rounds = rnds, conns_per_round = conns,
               total_conns = conns * rnds, conns_per_sec = cps, conn_wait = cw,
               global_wait = gw, round_data = out \<rparr>"
      by (simp add: load_stats_def)
    let ?st = "\<lparr> stress_type = stype, rounds = rnds, conns_per_round = conns,
               total_conns = conns * rnds, conns_per_sec = cps, conn_wait = cw,
               global_wait = gw, round_data = out \<rparr>"
    have cs: "calculate_stats plt pt conns rnds cps cw gw graph stype =
                graph_and_return plt graph ?st"
      using Inr by (simp add: calculate_stats_def)
    show ?thesis
    proof (cases "graph_and_return plt graph ?st")
      case (Inl e)
      then have "graph_and_return_st plt graph ?h4 ?sa = Inl e"
        using ls by (auto simp: graph_and_return_def graph_and_return_st_def
            split: if_splits sum.splits)
      with res cs Inl show ?thesis by simp
    next
      case (Inr st')
      then have "st' = ?st" and "graph_and_return_st plt graph ?h4 ?sa = Inr (?h4, ?sa)"
        using ls by (auto simp: graph_and_return_def graph_and_return_st_def
            split: if_splits sum.splits)
      with res cs Inr frame_take [OF f4] ls show ?thesis by simp
    qed
  qed
qed

lemma take_frame: "take (length h0) h = h0 \<Longrightarrow> frame h0 h"
proof -
  assume t: "take (length h0) h = h0"
  have "length (take (length h0) h) = length h0" using t by simp
  then have len: "length h0 \<le> length h" by simp
  have "\<forall>a<length h0. h ! a = h0 ! a"
  proof (intro allI impI)
    fix a assume "a < length h0"
    then have "take (length h0) h ! a = h ! a" by simp
    with t show "h ! a = h0 ! a" by simp
  qed
  with len show ?thesis by (simp add: frame_def)
qed

text \<open>
  C9. \<^verbatim>\<open>_calculate_stats\<close> on a store of objects: called on two stores in which
  \<^verbatim>\<open>perf_times\<close> reads as the same mapping \<open>pt\<close>, down to the \<^verbatim>\<open>conn_stat\<close> records, the two
  calls raise the same error or return \<^verbatim>\<open>stats\<close> that read as the same value; after a call
  that returns, every object that existed before it is unchanged (the store of before is
  an initial part of the store of after), so \<^verbatim>\<open>perf_times\<close> still reads as \<open>pt\<close>; and the
  value read from the result is the one that \<open>calculate_stats\<close> computes from \<open>pt\<close>.
\<close>

theorem calculate_stats_pure:
  assumes "load_perf h p = Some pt" and "load_perf h2 p2 = Some pt"
  shows "map_sum id (\<lambda>(h', r). load_stats h' r)
             (calculate_stats_st plt h p conns rnds cps cw gw graph stype) =
         map_sum id (\<lambda>(h', r). load_stats h' r)
             (calculate_stats_st plt h2 p2 conns rnds cps cw gw graph stype) \<and>
         (\<forall>h' r. calculate_stats_st plt h p conns rnds cps cw gw graph stype = Inr (h', r) \<longrightarrow>
            take (length h) h' = h \<and> load_perf h' p = Some pt) \<and>
         map_sum id (\<lambda>(h', r). load_stats h' r)
             (calculate_stats_st plt h p conns rnds cps cw gw graph stype) =
         map_sum id Some (calculate_stats plt pt conns rnds cps cw gw graph stype)"
proof -
  have val: "\<And>h p. load_perf h p = Some pt \<Longrightarrow>
          map_sum id (\<lambda>(h', r). load_stats h' r)
             (calculate_stats_st plt h p conns rnds cps cw gw graph stype) =
          map_sum id Some (calculate_stats plt pt conns rnds cps cw gw graph stype)"
  proof -
    fix h p assume l: "load_perf h p = Some pt"
    from calculate_stats_st_eq [OF l, of plt conns rnds cps cw gw graph stype]
    show "map_sum id (\<lambda>(h', r). load_stats h' r)
             (calculate_stats_st plt h p conns rnds cps cw gw graph stype) =
          map_sum id Some (calculate_stats plt pt conns rnds cps cw gw graph stype)"
      by (cases "calculate_stats plt pt conns rnds cps cw gw graph stype") auto
  qed
  have keep: "\<forall>h' r. calculate_stats_st plt h p conns rnds cps cw gw graph stype = Inr (h', r) \<longrightarrow>
            take (length h) h' = h \<and> load_perf h' p = Some pt"
  proof (intro allI impI)
    fix h' r
    assume r: "calculate_stats_st plt h p conns rnds cps cw gw graph stype = Inr (h', r)"
    from calculate_stats_st_eq [OF assms(1), of plt conns rnds cps cw gw graph stype] r
    have t: "take (length h) h' = h"
      by (cases "calculate_stats plt pt conns rnds cps cw gw graph stype") auto
    from load_perf_frame [OF take_frame [OF t] assms(1)] t
    show "take (length h) h' = h \<and> load_perf h' p = Some pt" by simp
  qed
  from val [OF assms(1)] val [OF assms(2)] keep show ?thesis by simp
qed

lemma load_store_a:
  "load_perf store_a 3 =
     Some [(''round_1'', [(1, refused_stat 1), (2, refused_stat 2)]),
           (''round_2'', [(1, refused_stat 1), (2, refused_stat 2)])]"
  by (simp add: load_perf_def load_round_def load_conn_def lookup_def store_a_def)

lemma load_store_b:
  "load_perf store_b 0 =
     Some [(''round_1'', [(1, refused_stat 1), (2, refused_stat 2)]),
           (''round_2'', [(1, refused_stat 1), (2, refused_stat 2)])]"
  by (simp add: load_perf_def load_round_def load_conn_def lookup_def store_b_def)

theorem calculate_stats_pure_witness:
  "load_perf store_a 3 =
     Some [(''round_1'', [(1, refused_stat 1), (2, refused_stat 2)]),
           (''round_2'', [(1, refused_stat 1), (2, refused_stat 2)])] \<and>
   load_perf store_b 0 =
     Some [(''round_1'', [(1, refused_stat 1), (2, refused_stat 2)]),
           (''round_2'', [(1, refused_stat 1), (2, refused_stat 2)])] \<and>
   map_sum id (\<lambda>(h', r). load_stats h' r)
       (calculate_stats_st drawing store_a 3 2 2 (PyInt 100) 0 0 True ''SFTP'') =
   map_sum id (\<lambda>(h', r). load_stats h' r)
       (calculate_stats_st drawing store_b 0 2 2 (PyInt 100) 0 0 True ''SFTP'')"
proof -
  have "map_sum id (\<lambda>(h', r). load_stats h' r)
       (calculate_stats_st drawing store_a 3 2 2 (PyInt 100) 0 0 True ''SFTP'') =
   map_sum id (\<lambda>(h', r). load_stats h' r)
       (calculate_stats_st drawing store_b 0 2 2 (PyInt 100) 0 0 True ''SFTP'')"
    using calculate_stats_pure [OF load_store_a load_store_b] by (rule conjunct1)
  with load_store_a load_store_b show ?thesis by blast
qed

end
